theory Spec2Isabelle
  imports Complex_Main "HOL-Library.Multiset"
begin

section \<open>Data model\<close>

text \<open>
  The grid is a numpy array of integers, held here as a list of rows. The value
  \<open>-1\<close> marks an empty cell; every other value is an agent type (the
  constructor draws them from \<open>2 .. agent_types + 1\<close>). A coordinate is a
  pair (row, column), as the tuples \<open>(y_index, x_index)\<close> of the source.
\<close>

type_synonym grid = "int list list"

type_synonym coord = "nat \<times> nat"

text \<open>
  The exceptions the program can raise; \<open>sys.exit(0)\<close> is \<open>SystemExit\<close> and
  \<open>sys.exit(1)\<close> is \<open>SystemExitFailure\<close>.
\<close>

datatype error = ValueError | IndexError | SystemExit | SystemExitFailure

text \<open>
  The two global generators (\<open>random\<close> and \<open>np.random\<close>) are each modelled by
  the stream of values they are going to return: the program never seeds them, so
  the stream is an input of the model. \<open>randbelow n\<close> yields the next value
  reduced into \<open>[0, n)\<close> and the rest of the stream.
\<close>

type_synonym rng = "nat \<Rightarrow> nat"

definition randbelow :: "nat \<Rightarrow> rng \<Rightarrow> nat \<times> rng" where
  "randbelow n r = (r 0 mod n, \<lambda>i. r (Suc i))"

text \<open>
  \<open>random.choice(seq)\<close>: \<open>IndexError\<close> on an empty sequence, otherwise
  \<open>seq[randbelow(len(seq))]\<close>.
\<close>

definition random_choice :: "'a list \<Rightarrow> rng \<Rightarrow> error + ('a \<times> rng)" where
  "random_choice seq r =
     (if seq = [] then Inl IndexError
      else (let (k, r') = randbelow (length seq) r in Inr (seq ! k, r')))"

text \<open>
  \<open>random.shuffle(x)\<close> (and \<open>np.random.shuffle\<close> on a one-dimensional array):
  for \<open>i\<close> from \<open>len(x) - 1\<close> down to 1, draw \<open>j = randbelow(i + 1)\<close> and
  swap \<open>x[i]\<close> with \<open>x[j]\<close>.
\<close>

fun shuffle_loop :: "nat \<Rightarrow> 'a list \<Rightarrow> rng \<Rightarrow> 'a list \<times> rng" where
  "shuffle_loop 0 x r = (x, r)"
| "shuffle_loop (Suc i) x r =
     (let (j, r') = randbelow (Suc i + 1) r
      in shuffle_loop i (x[Suc i := x ! j, j := x ! Suc i]) r')"

definition random_shuffle :: "'a list \<Rightarrow> rng \<Rightarrow> 'a list \<times> rng" where
  "random_shuffle x r = shuffle_loop (length x - 1) x r"

section \<open>Neighbourhood and classification\<close>

text \<open>
  \<open>_get_neighbours\<close>: the values of the cells \<open>(i, j)\<close> with \<open>i\<close> in
  \<open>range(row - 1, row + 2)\<close> and \<open>j\<close> in \<open>range(column - 1, column + 2)\<close>
  that lie inside the grid and differ from the cell itself. The ranges are over
  integers, since \<open>row - 1\<close> is \<open>-1\<close> on the first row.
\<close>

definition get_neighbours :: "grid \<Rightarrow> nat \<Rightarrow> nat \<Rightarrow> int list" where
  "get_neighbours g row_number column_number =
     [g ! nat i ! nat j.
        i \<leftarrow> [int row_number - 1 .. int row_number + 1],
        j \<leftarrow> [int column_number - 1 .. int column_number + 1],
        i \<ge> 0 \<and> j \<ge> 0 \<and> i < int (length g) \<and> j < int (length (g ! 0))
          \<and> (i \<noteq> int row_number \<or> j \<noteq> int column_number)]"

text \<open>
  Python's \<open>float\<close> is the IEEE 754 binary64 format. A finite double is a
  rational number, and an arithmetic operation returns the double nearest to the
  exact result, ties going to the even significand. \<open>round_double\<close> is that
  rounding: the significand has 53 bits and the exponent of the last bit is at
  least \<open>-1074\<close> (the subnormal range). Results of magnitude \<open>2 ^ 1024\<close> and
  above, which binary64 turns into an infinity, are left as large rationals; they
  compare with the small integers of the program as the infinity does.
\<close>

function bit_length :: "int \<Rightarrow> nat" where
  "bit_length a = (if a \<le> 0 then 0 else Suc (bit_length (a div 2)))"
  by pat_completeness auto
termination
  by (relation "measure nat") auto

definition pow2 :: "int \<Rightarrow> rat" where
  "pow2 e = (if 0 \<le> e then 2 ^ nat e else 1 / 2 ^ nat (- e))"

definition round_half_even :: "rat \<Rightarrow> int" where
  "round_half_even q =
     (let f = \<lfloor>q\<rfloor>; d = q - of_int f
      in if d < 1 / 2 then f else if 1 / 2 < d then f + 1
         else if even f then f else f + 1)"

text \<open>The \<open>e\<close> with \<open>2 ^ e \<le> \<bar>x\<bar> < 2 ^ (e + 1)\<close>, for \<open>x \<noteq> 0\<close>.\<close>

definition binade :: "rat \<Rightarrow> int" where
  "binade x =
     (let (a, b) = quotient_of \<bar>x\<bar>;
          d = int (bit_length a) - int (bit_length b)
      in if pow2 d \<le> \<bar>x\<bar> then d else d - 1)"

definition round_double :: "rat \<Rightarrow> rat" where
  "round_double x =
     (if x = 0 then 0
      else (let e = max (binade x - 52) (- 1074);
                m = round_half_even (\<bar>x\<bar> / pow2 e)
            in sgn x * of_int m * pow2 e))"

text \<open>
  The product \<open>n * x\<close> of a Python \<open>int\<close> and a \<open>float\<close>: the integer is
  converted to a double, and the product of the two doubles is rounded.
\<close>

definition mul_int_float :: "int \<Rightarrow> rat \<Rightarrow> rat" where
  "mul_int_float n x = round_double (round_double (of_int n) * x)"

text \<open>
  The test of \<open>_find_unhappy_cells\<close> on one occupied cell holding \<open>current\<close>:
  the number of non-empty neighbours equal to \<open>current\<close> is strictly below the
  double \<open>len(not_empty_neighbours) * same_neighbour\<close>. The threshold
  \<open>same_neighbour\<close> is the rational value of a finite double; the comparison of an
  \<open>int\<close> with a \<open>float\<close> is exact.
\<close>

definition unhappy_cond :: "grid \<Rightarrow> rat \<Rightarrow> nat \<Rightarrow> nat \<Rightarrow> int \<Rightarrow> bool" where
  "unhappy_cond g same_neighbour y_index x_index current =
     (let neighbours = get_neighbours g y_index x_index;
          not_empty_neighbours = [i \<leftarrow> neighbours. i \<noteq> -1]
      in of_nat (sum_list (map (\<lambda>i. if i = current then (1::nat) else 0)
                    [i \<leftarrow> not_empty_neighbours. i \<noteq> -1]))
           < mul_int_float (int (length not_empty_neighbours)) same_neighbour)"

text \<open>The double loop of \<open>_find_unhappy_cells\<close>, before the exit test and the shuffle.\<close>

definition unhappy_scan :: "grid \<Rightarrow> rat \<Rightarrow> coord list" where
  "unhappy_scan g same_neighbour =
     [(y_index, x_index).
        (y_index, row) \<leftarrow> enumerate 0 g,
        (x_index, x) \<leftarrow> enumerate 0 row,
        x \<noteq> -1,
        unhappy_cond g same_neighbour y_index x_index x]"

text \<open>
  \<open>_find_unhappy_cells\<close>: exits the process when no cell is unhappy, otherwise
  returns the unhappy coordinates in shuffled order.
\<close>

definition find_unhappy_cells :: "grid \<Rightarrow> rat \<Rightarrow> rng \<Rightarrow> error + (coord list \<times> rng)" where
  "find_unhappy_cells g same_neighbour r =
     (let unhappy_cells = unhappy_scan g same_neighbour
      in if unhappy_cells = [] then Inl SystemExit
         else Inr (random_shuffle unhappy_cells r))"

text \<open>\<open>_get_empty_cells\<close>: the coordinates holding \<open>-1\<close>, in row-major order.\<close>

definition get_empty_cells :: "grid \<Rightarrow> coord list" where
  "get_empty_cells g =
     [(y_index, x_index).
        (y_index, row) \<leftarrow> enumerate 0 g,
        (x_index, x) \<leftarrow> enumerate 0 row,
        x = -1]"

section \<open>Relocation\<close>

definition cell :: "grid \<Rightarrow> coord \<Rightarrow> int" where
  "cell g c = g ! fst c ! snd c"

text \<open>The assignment \<open>self.grid[y][x] = v\<close>.\<close>

definition set_cell :: "grid \<Rightarrow> coord \<Rightarrow> int \<Rightarrow> grid" where
  "set_cell g c v = g[fst c := (g ! fst c)[snd c := v]]"

text \<open>
  The choice of a destination in the loop of \<open>_update\<close>: a draw from
  \<open>empty_spots\<close>, and on \<open>IndexError\<close> a rescan of the grid and a second draw.
  The second draw is outside the \<open>try\<close>, so its \<open>IndexError\<close> propagates.
\<close>

definition pick_destination ::
  "grid \<Rightarrow> coord list \<Rightarrow> rng \<Rightarrow> error + (coord \<times> coord list \<times> rng)" where
  "pick_destination g empty_spots r =
     (case random_choice empty_spots r of
        Inr (new, r') \<Rightarrow> Inr (new, empty_spots, r')
      | Inl IndexError \<Rightarrow>
          (let empty_spots' = get_empty_cells g
           in case random_choice empty_spots' r of
                Inr (new, r') \<Rightarrow> Inr (new, empty_spots', r')
              | Inl e \<Rightarrow> Inl e)
      | Inl e \<Rightarrow> Inl e)"

text \<open>
  One turn of the loop for the unhappy cell \<open>old\<close>: the destination receives the
  value of \<open>old\<close>, then \<open>old\<close> is emptied, then the destination leaves
  \<open>empty_spots\<close> (\<open>list.remove\<close> drops the first occurrence; the
  destination was drawn from that list, so it is there). The chosen destination is
  returned as well.
\<close>

definition move_agent ::
  "grid \<Rightarrow> coord list \<Rightarrow> rng \<Rightarrow> coord \<Rightarrow> error + (grid \<times> coord list \<times> rng \<times> coord)" where
  "move_agent g empty_spots r old =
     (case pick_destination g empty_spots r of
        Inl e \<Rightarrow> Inl e
      | Inr (new, empty_spots', r') \<Rightarrow>
          (let g1 = set_cell g new (cell g old);
               g2 = set_cell g1 old (-1)
           in Inr (g2, remove1 new empty_spots', r', new)))"

text \<open>
  The loop of \<open>_update\<close> over the unhappy cells. Besides the final grid, working
  list and generator it returns the log of the moves made: for each turn the grid
  and the working list at the head of the turn, the source and the destination.
\<close>

record move =
  before :: grid
  spots :: "coord list"
  source :: coord
  dest :: coord

fun relocate ::
  "grid \<Rightarrow> coord list \<Rightarrow> rng \<Rightarrow> coord list
     \<Rightarrow> error + (grid \<times> coord list \<times> rng \<times> move list)" where
  "relocate g empty_spots r [] = Inr (g, empty_spots, r, [])"
| "relocate g empty_spots r (old # rest) =
     (case move_agent g empty_spots r old of
        Inl e \<Rightarrow> Inl e
      | Inr (g', empty_spots', r', new) \<Rightarrow>
          (case relocate g' empty_spots' r' rest of
             Inl e \<Rightarrow> Inl e
           | Inr (g'', empty_spots'', r'', moves) \<Rightarrow>
               Inr (g'', empty_spots'', r'',
                 \<lparr>before = g, spots = empty_spots, source = old, dest = new\<rparr> # moves)))"

text \<open>
  The body of \<open>_update\<close>, returning the shuffled unhappy cells, the new grid, the
  generator and the log of moves; \<open>update\<close> is \<open>_update\<close> itself, which
  returns the number of unhappy cells (and leaves the grid and the generator
  changed).
\<close>

definition update_pass ::
  "grid \<Rightarrow> rat \<Rightarrow> rng \<Rightarrow> error + (coord list \<times> grid \<times> rng \<times> move list)" where
  "update_pass g same_neighbour r =
     (case find_unhappy_cells g same_neighbour r of
        Inl e \<Rightarrow> Inl e
      | Inr (unhappy_cells, r1) \<Rightarrow>
          (case relocate g (get_empty_cells g) r1 unhappy_cells of
             Inl e \<Rightarrow> Inl e
           | Inr (g', empty_spots, r2, moves) \<Rightarrow> Inr (unhappy_cells, g', r2, moves)))"

definition update :: "grid \<Rightarrow> rat \<Rightarrow> rng \<Rightarrow> error + (nat \<times> grid \<times> rng)" where
  "update g same_neighbour r =
     (case update_pass g same_neighbour r of
        Inl e \<Rightarrow> Inl e
      | Inr (unhappy_cells, g', r', moves) \<Rightarrow> Inr (length unhappy_cells, g', r'))"

text \<open>
  A cell is marked unhappy when the list returned by \<open>_find_unhappy_cells\<close>
  contains it; when the function exits instead, no cell is unhappy.
\<close>

definition marked_unhappy :: "grid \<Rightarrow> rat \<Rightarrow> rng \<Rightarrow> coord \<Rightarrow> bool" where
  "marked_unhappy g same_neighbour r c =
     (case find_unhappy_cells g same_neighbour r of
        Inl e \<Rightarrow> False
      | Inr (cells, r') \<Rightarrow> c \<in> set cells)"

section \<open>Configuration, construction and the main loop\<close>

text \<open>
  The numeric fields of \<open>ArgParser\<close>. The integers are Python's unbounded
  \<open>int\<close>; the two fractions are finite doubles, held as rationals. The paths
  and the palette only drive the image output, which is outside the model.
\<close>

record args =
  width :: int
  height :: int
  agent_types :: int
  iterations :: int
  percent_empty :: rat
  same_neighbour :: rat


text \<open>
  \<open>np.random.randint(low, high, size)\<close> draws \<open>size\<close> values, each
  \<open>low + randbelow(high - low)\<close>; the constructor reads them in row-major order.
\<close>

fun randint_list :: "int \<Rightarrow> int \<Rightarrow> nat \<Rightarrow> rng \<Rightarrow> int list \<times> rng" where
  "randint_list low high 0 r = ([], r)"
| "randint_list low high (Suc n) r =
     (let (k, r1) = randbelow (nat (high - low)) r;
          (vs, r2) = randint_list low high n r1
      in ((low + int k) # vs, r2))"

text \<open>\<open>int(x)\<close> on a float: truncation towards zero.\<close>

definition trunc :: "rat \<Rightarrow> int" where
  "trunc x = (if 0 \<le> x then \<lfloor>x\<rfloor> else \<lceil>x\<rceil>)"

text \<open>The slice \<open>xs[:k]\<close>; a negative \<open>k\<close> counts from the end.\<close>

definition slice_to :: "int \<Rightarrow> 'a list \<Rightarrow> 'a list" where
  "slice_to k xs = (if 0 \<le> k then take (nat k) xs else take (nat (int (length xs) + k)) xs)"

text \<open>
  \<open>SocialSegregation.__init__\<close>, as far as the grid goes. \<open>randint\<close> raises
  \<open>ValueError\<close> when \<open>low >= high\<close> and on a negative dimension. The flat
  index \<open>i\<close> of a grid of width \<open>w\<close> is the cell \<open>(i div w, i mod w)\<close>.
\<close>

definition init :: "args \<Rightarrow> rng \<Rightarrow> error + (grid \<times> rng)" where
  "init a r =
     (if agent_types a < 1 \<or> height a < 0 \<or> width a < 0 then Inl ValueError
      else
        (let h = nat (height a); w = nat (width a); size = h * w;
             (vs, r1) = randint_list 2 (agent_types a + 2) size r;
             g = map (\<lambda>y. take w (drop (y * w) vs)) [0..<h];
             num_empty = trunc (mul_int_float (int size) (percent_empty a));
             (empty_indice, r2) = random_shuffle [0..<size] r1
         in Inr (fold (\<lambda>i g. set_cell g (i div w, i mod w) (-1))
                   (slice_to num_empty empty_indice) g, r2)))"

text \<open>
  How \<open>run\<close> ends: the loop runs out (\<open>AllFinished\<close>), \<open>_find_unhappy_cells\<close>
  exits the process because no cell is unhappy (\<open>NoUnhappyExit\<close>), or
  \<open>_update\<close> raises. With the ending come the value of \<open>self.iteration\<close>, the
  grid, and the frames: the grids handed to \<open>_save_img\<close>, one for each iteration
  begun, in order.
\<close>

datatype ending = AllFinished | NoUnhappyExit | Raised error

record outcome =
  ending :: ending
  iteration :: int
  final :: grid
  frames :: "grid list"

text \<open>The \<open>for\<close> loop of \<open>run\<close> over a finite range.\<close>

fun run_loop :: "rat \<Rightarrow> int list \<Rightarrow> int \<Rightarrow> grid \<Rightarrow> rng \<Rightarrow> grid list \<Rightarrow> outcome" where
  "run_loop t [] it g r fs = \<lparr>ending = AllFinished, iteration = it, final = g, frames = fs\<rparr>"
| "run_loop t (i # is) it g r fs =
     (case update g t r of
        Inl SystemExit \<Rightarrow>
          \<lparr>ending = NoUnhappyExit, iteration = i, final = g, frames = fs @ [g]\<rparr>
      | Inl e \<Rightarrow> \<lparr>ending = Raised e, iteration = i, final = g, frames = fs @ [g]\<rparr>
      | Inr (num_unhappy_cells, g', r') \<Rightarrow> run_loop t is i g' r' (fs @ [g]))"





text \<open>A coordinate inside the grid.\<close>

definition in_grid :: "grid \<Rightarrow> coord \<Rightarrow> bool" where
  "in_grid g c = (fst c < length g \<and> snd c < length (g ! fst c))"

text \<open>
  What holds at the head of every turn of the relocation loop, for the working
  list \<open>empty_spots\<close> and the unhappy cells still to be moved: the working list
  has no duplicates and holds only cells that are empty now, and the cells still to
  be moved are pairwise distinct and occupied.
\<close>

definition pass_inv :: "grid \<Rightarrow> coord list \<Rightarrow> coord list \<Rightarrow> bool" where
  "pass_inv g empty_spots todo =
     (distinct empty_spots \<and> distinct todo
      \<and> (\<forall>c \<in> set empty_spots. in_grid g c \<and> cell g c = -1)
      \<and> (\<forall>c \<in> set todo. in_grid g c \<and> cell g c \<noteq> -1))"


text \<open>The grid a logged move leaves behind: the two assignments of the loop body.\<close>

definition after :: "move \<Rightarrow> grid" where
  "after m = set_cell (set_cell (before m) (dest m) (cell (before m) (source m))) (source m) (-1)"

text \<open>The list a logged move draws its destination from: the working list, or the rescan when it is empty.\<close>

definition drawn_from :: "move \<Rightarrow> coord list" where
  "drawn_from m = (if spots m = [] then get_empty_cells (before m) else spots m)"


text \<open>Three configurations used as examples.\<close>

definition small_args :: args where
  "small_args = \<lparr>width = 1, height = 1, agent_types = 1, iterations = 3,
                  percent_empty = 3 / 4, same_neighbour = 1 / 2\<rparr>"


definition half_args :: args where
  "half_args = \<lparr>width = 3, height = 2, agent_types = 2, iterations = 3,
                 percent_empty = 1 / 2, same_neighbour = 1 / 2\<rparr>"

section \<open>Shuffling permutes\<close>

lemma mset_shuffle_loop:
  "i < length x \<Longrightarrow> mset (fst (shuffle_loop i x r)) = mset x"
proof (induction i arbitrary: x r)
  case 0
  then show ?case by simp
next
  case (Suc i)
  let ?j = "r 0 mod (Suc i + 1)"
  let ?x' = "x[Suc i := x ! ?j, ?j := x ! Suc i]"
  have "?j < Suc i + 1" by simp
  then have j: "?j < length x" using Suc.prems by linarith
  have "mset ?x' = mset x"
    using mset_swap[OF j Suc.prems] by simp
  moreover have "i < length ?x'" using Suc.prems by simp
  ultimately show ?case
    using Suc.IH[of ?x' "\<lambda>i. r (Suc i)"] by (simp add: randbelow_def)
qed

lemma mset_random_shuffle: "mset (fst (random_shuffle x r)) = mset x"
proof (cases x)
  case Nil
  then show ?thesis by (simp add: random_shuffle_def)
next
  case (Cons a as)
  then show ?thesis by (simp add: random_shuffle_def mset_shuffle_loop)
qed

lemma set_random_shuffle: "set (fst (random_shuffle x r)) = set x"
  using mset_random_shuffle[of x r] by (metis set_mset_mset)

lemma distinct_random_shuffle: "distinct (fst (random_shuffle x r)) = distinct x"
  using mset_random_shuffle[of x r] by (metis mset_eq_imp_distinct_iff)

lemma length_random_shuffle: "length (fst (random_shuffle x r)) = length x"
  using mset_random_shuffle[of x r] by (metis size_mset)

section \<open>The scans\<close>

lemma in_unhappy_scan:
  "(y, x) \<in> set (unhappy_scan g t) \<longleftrightarrow>
     y < length g \<and> x < length (g ! y) \<and> g ! y ! x \<noteq> -1 \<and> unhappy_cond g t y x (g ! y ! x)"
proof
  assume "(y, x) \<in> set (unhappy_scan g t)"
  then show "y < length g \<and> x < length (g ! y) \<and> g ! y ! x \<noteq> -1
      \<and> unhappy_cond g t y x (g ! y ! x)"
    by (auto simp: unhappy_scan_def in_set_enumerate_eq)
next
  assume a: "y < length g \<and> x < length (g ! y) \<and> g ! y ! x \<noteq> -1
      \<and> unhappy_cond g t y x (g ! y ! x)"
  then have "(y, g ! y) \<in> set (enumerate 0 g)" "(x, g ! y ! x) \<in> set (enumerate 0 (g ! y))"
    by (simp_all add: in_set_enumerate_eq)
  with a show "(y, x) \<in> set (unhappy_scan g t)"
    unfolding unhappy_scan_def by fastforce
qed

lemma in_get_empty_cells:
  "(y, x) \<in> set (get_empty_cells g) \<longleftrightarrow>
     y < length g \<and> x < length (g ! y) \<and> g ! y ! x = -1"
proof
  assume "(y, x) \<in> set (get_empty_cells g)"
  then show "y < length g \<and> x < length (g ! y) \<and> g ! y ! x = -1"
    by (auto simp: get_empty_cells_def in_set_enumerate_eq)
next
  assume a: "y < length g \<and> x < length (g ! y) \<and> g ! y ! x = -1"
  then have "(y, g ! y) \<in> set (enumerate 0 g)" "(x, g ! y ! x) \<in> set (enumerate 0 (g ! y))"
    by (simp_all add: in_set_enumerate_eq)
  with a show "(y, x) \<in> set (get_empty_cells g)"
    unfolding get_empty_cells_def by fastforce
qed

lemma sum_list_indicator:
  "sum_list (map (\<lambda>i. if P i then (1::nat) else 0) xs) = length (filter P xs)"
  by (induction xs) auto

lemma unhappy_cond_iff:
  "unhappy_cond g t y x current \<longleftrightarrow>
     of_nat (length [v \<leftarrow> [v \<leftarrow> get_neighbours g y x. v \<noteq> -1]. v = current])
       < mul_int_float (int (length [v \<leftarrow> get_neighbours g y x. v \<noteq> -1])) t"
proof -
  have e: "(\<lambda>x. x \<noteq> -1 \<and> x = current \<and> x \<noteq> -1) = (\<lambda>x::int. x \<noteq> -1 \<and> x = current)"
    by auto
  show ?thesis
    by (simp add: unhappy_cond_def Let_def sum_list_indicator e)
qed

lemma upto_three: "[i - 1 .. i + 1] = [i - 1, i, i + (1::int)]"
proof -
  have "[i - 1 .. i + 1] = (i - 1) # [i .. i + 1]"
    by (subst upto_rec1) simp_all
  also have "[i .. i + 1] = i # [i + 1 .. i + 1]"
    by (subst upto_rec1) simp_all
  finally show ?thesis by simp
qed

lemma length_get_neighbours: "length (get_neighbours g y x) \<le> 8"
  unfolding get_neighbours_def upto_three by simp

lemma marked_unhappy_iff:
  "marked_unhappy g t r c \<longleftrightarrow> c \<in> set (unhappy_scan g t)"
proof (cases "unhappy_scan g t = []")
  case True
  then show ?thesis by (simp add: marked_unhappy_def find_unhappy_cells_def)
next
  case False
  obtain cells r' where sh: "random_shuffle (unhappy_scan g t) r = (cells, r')"
    by (cases "random_shuffle (unhappy_scan g t) r")
  then have "set cells = set (unhappy_scan g t)"
    using set_random_shuffle[of "unhappy_scan g t" r] by simp
  with False sh show ?thesis
    by (simp add: marked_unhappy_def find_unhappy_cells_def)
qed

section \<open>Cells and moves\<close>

lemma in_grid_set_cell [simp]: "in_grid (set_cell g c v) c' = in_grid g c'"
  by (cases "fst c' = fst c") (auto simp: in_grid_def set_cell_def nth_list_update)

lemma cell_set_cell_same: "in_grid g c \<Longrightarrow> cell (set_cell g c v) c = v"
  by (simp add: in_grid_def set_cell_def cell_def)

lemma cell_set_cell_other: "c' \<noteq> c \<Longrightarrow> cell (set_cell g c v) c' = cell g c'"
proof -
  assume ne: "c' \<noteq> c"
  obtain y x where c: "c = (y, x)" by (cases c)
  obtain y' x' where c': "c' = (y', x')" by (cases c')
  show ?thesis
  proof (cases "y' = y")
    case False
    then show ?thesis by (simp add: c c' set_cell_def cell_def)
  next
    case True
    then have x: "x' \<noteq> x" using ne c c' by simp
    show ?thesis
    proof (cases "y < length g")
      case True
      with \<open>y' = y\<close> x show ?thesis by (simp add: c c' set_cell_def cell_def)
    next
      case False
      then have "g[y := (g ! y)[x := v]] = g" by (simp add: list_update_beyond)
      then show ?thesis by (simp add: c c' set_cell_def cell_def)
    qed
  qed
qed

lemma shape_set_cell [simp]: "map length (set_cell g c v) = map length g"
  by (simp add: set_cell_def map_update list_update_same_conv)
     (metis length_map list_update_beyond list_update_id not_le_imp_less nth_map)

lemma cell_in_mset: "in_grid g c \<Longrightarrow> cell g c \<in># mset (concat g)"
  unfolding in_grid_def cell_def by (metis in_set_conv_nth set_mset_mset set_concat UN_I nth_mem)


lemma mset_concat_set_cell:
  assumes "in_grid g c"
  shows "mset (concat (set_cell g c v)) = add_mset v (mset (concat g) - {#cell g c#})"
proof -
  obtain y x where c: "c = (y, x)" by (cases c)
  have y: "y < length g" and x: "x < length (g ! y)" using assms c by (simp_all add: in_grid_def)
  have g: "g = take y g @ (g ! y) # drop (Suc y) g"
    using y by (simp add: id_take_nth_drop)
  have g': "set_cell g c v = take y g @ (g ! y)[x := v] # drop (Suc y) g"
    using y c by (simp add: set_cell_def upd_conv_take_nth_drop)
  have row: "mset ((g ! y)[x := v]) = add_mset v (mset (g ! y) - {#g ! y ! x#})"
    using x by (simp add: mset_update)
  have mem: "g ! y ! x \<in># mset (g ! y)" using x by simp
  have "mset (concat g) = mset (concat (take y g)) + mset (g ! y) + mset (concat (drop (Suc y) g))"
    by (subst g) simp
  moreover have "mset (concat (set_cell g c v))
      = mset (concat (take y g)) + mset ((g ! y)[x := v]) + mset (concat (drop (Suc y) g))"
    by (subst g') simp
  ultimately show ?thesis
    using row mem c by (simp add: cell_def)
qed

lemma mset_concat_move:
  assumes "in_grid g old" and "in_grid g new" and "cell g new = -1" and "cell g old \<noteq> -1"
  shows "mset (concat (set_cell (set_cell g new (cell g old)) old (-1))) = mset (concat g)"
proof -
  have ne: "old \<noteq> new" using assms by auto
  let ?g1 = "set_cell g new (cell g old)"
  have a: "cell ?g1 old = cell g old" using ne by (simp add: cell_set_cell_other)
  have "cell g old \<in># mset (concat g) - {#cell g new#}"
    using assms cell_in_mset[of g old] by (auto simp: in_diff_count)
  then show ?thesis
    using assms a cell_in_mset[of g new]
    by (simp add: mset_concat_set_cell)
qed

lemma distinct_row_scan:
  "distinct (map fst ps) \<Longrightarrow>
     distinct (concat (map (\<lambda>(x, v). if P x v then [(y, x)] else []) ps))"
proof (induction ps)
  case Nil
  then show ?case by simp
next
  case (Cons p ps)
  obtain x v where p: "p = (x, v)" by (cases p)
  have "(y, x) \<notin> set (concat (map (\<lambda>(x, v). if P x v then [(y, x)] else []) ps))"
    using Cons.prems p by (force split: if_splits)
  with Cons p show ?case by simp
qed

lemma fst_row_scan:
  "c \<in> set (concat (map (\<lambda>(x, v). if P x v then [(y, x)] else []) ps)) \<Longrightarrow> fst c = y"
  by (auto split: if_splits)

lemma fst_grid_scan:
  "c \<in> set (concat (map (\<lambda>(y, row). concat (map (\<lambda>(x, v). if P y x v then [(y, x)] else [])
        (enumerate 0 row))) (enumerate n g))) \<Longrightarrow> n \<le> fst c"
  by (auto simp: in_set_enumerate_eq split: if_splits)

lemma distinct_grid_scan:
  "distinct (concat (map (\<lambda>(y, row). concat (map (\<lambda>(x, v). if P y x v then [(y, x)] else [])
        (enumerate 0 row))) (enumerate n g)))"
proof (induction g arbitrary: n)
  case Nil
  then show ?case by simp
next
  case (Cons row g)
  have "distinct (concat (map (\<lambda>(x, v). if P n x v then [(n, x)] else []) (enumerate 0 row)))"
    by (rule distinct_row_scan) simp
  moreover have "\<And>c. c \<in> set (concat (map (\<lambda>(x, v). if P n x v then [(n, x)] else [])
      (enumerate 0 row))) \<Longrightarrow> fst c = n"
    by (rule fst_row_scan)
  moreover have "\<And>c. c \<in> set (concat (map (\<lambda>(y, row). concat (map (\<lambda>(x, v). if P y x v then [(y, x)] else [])
        (enumerate 0 row))) (enumerate (Suc n) g))) \<Longrightarrow> Suc n \<le> fst c"
    by (rule fst_grid_scan)
  ultimately show ?case
    using Cons.IH[of "Suc n"] by fastforce
qed

lemma distinct_get_empty_cells: "distinct (get_empty_cells g)"
  unfolding get_empty_cells_def using distinct_grid_scan[of "\<lambda>y x v. v = -1" 0 g] by simp

lemma if_if_conj: "(if a then (if b then x else y) else y) = (if a \<and> b then x else y)"
  by simp

lemma distinct_unhappy_scan: "distinct (unhappy_scan g t)"
  unfolding unhappy_scan_def if_if_conj
  by (rule distinct_grid_scan[of "\<lambda>y x v. v \<noteq> -1 \<and> unhappy_cond g t y x v" 0 g])

lemma random_choice_Inr:
  "random_choice xs r = Inr (c, r') \<Longrightarrow> c \<in> set xs \<and> r' = (\<lambda>i. r (Suc i))"
  by (auto simp: random_choice_def randbelow_def split: if_splits)

lemma random_choice_Inl:
  "random_choice xs r = Inl e \<longleftrightarrow> xs = [] \<and> e = IndexError"
  by (auto simp: random_choice_def randbelow_def split: if_splits)

lemma random_choice_cases:
  obtains (empty) "xs = []" "random_choice xs r = Inl IndexError"
  | (drawn) c where "xs \<noteq> []" "c \<in> set xs" "random_choice xs r = Inr (c, \<lambda>i. r (Suc i))"
proof (cases "xs = []")
  case True
  then show ?thesis using empty by (simp add: random_choice_def)
next
  case False
  then have "xs ! (r 0 mod length xs) \<in> set xs" by simp
  with False show ?thesis
    using drawn[of "xs ! (r 0 mod length xs)"] by (simp add: random_choice_def randbelow_def)
qed

lemma pick_destination_Inr:
  assumes "pick_destination g es r = Inr (new, es', r')"
  shows "new \<in> set es' \<and> r' = (\<lambda>i. r (Suc i))
         \<and> (if es = [] then es' = get_empty_cells g else es' = es)"
proof (cases es r rule: random_choice_cases)
  case empty
  show ?thesis
  proof (cases "get_empty_cells g" r rule: random_choice_cases)
    case empty
    with \<open>random_choice es r = Inl IndexError\<close> assms show ?thesis
      by (simp add: pick_destination_def)
  next
    case (drawn c)
    with \<open>random_choice es r = Inl IndexError\<close> \<open>es = []\<close> assms show ?thesis
      by (auto simp add: pick_destination_def)
  qed
next
  case (drawn c)
  with assms show ?thesis by (auto simp: pick_destination_def)
qed

lemma pick_destination_Inl:
  "pick_destination g es r = Inl e \<longleftrightarrow> es = [] \<and> get_empty_cells g = [] \<and> e = IndexError"
proof (cases es r rule: random_choice_cases)
  case empty
  show ?thesis
  proof (cases "get_empty_cells g" r rule: random_choice_cases)
    case empty
    with \<open>random_choice es r = Inl IndexError\<close> \<open>es = []\<close> show ?thesis
      by (auto simp add: pick_destination_def)
  next
    case (drawn c)
    with \<open>random_choice es r = Inl IndexError\<close> \<open>es = []\<close> show ?thesis
      by (auto simp add: pick_destination_def)
  qed
next
  case (drawn c)
  then show ?thesis by (auto simp: pick_destination_def)
qed


lemma move_agent_Inl:
  "move_agent g es r old = Inl e \<longleftrightarrow> es = [] \<and> get_empty_cells g = [] \<and> e = IndexError"
  using pick_destination_Inl[of g es r e]
  by (auto simp: move_agent_def Let_def split: sum.splits)

lemma get_empty_cells_inv:
  "c \<in> set (get_empty_cells g) \<longleftrightarrow> in_grid g c \<and> cell g c = -1"
  by (cases c) (simp add: in_get_empty_cells in_grid_def cell_def)

lemma move_agent_step:
  assumes inv: "pass_inv g es (old # rest)"
    and mv: "move_agent g es r old = Inr (g', es', r', new)"
  shows "in_grid g new" and "cell g new = -1" and "new \<noteq> old" and "new \<notin> set rest"
    and "g' = set_cell (set_cell g new (cell g old)) old (-1)"
    and "r' = (\<lambda>i. r (Suc i))"
    and "new \<in> set (if es = [] then get_empty_cells g else es)"
    and "pass_inv g' es' rest"
proof -
  obtain es1 where pd: "pick_destination g es r = Inr (new, es1, r')"
    and es': "es' = remove1 new es1"
    and g': "g' = set_cell (set_cell g new (cell g old)) old (-1)"
    using mv by (auto simp: move_agent_def Let_def split: sum.splits)
  from pick_destination_Inr[OF pd]
  have new: "new \<in> set es1" and r': "r' = (\<lambda>i. r (Suc i))"
    and es1: "es1 = (if es = [] then get_empty_cells g else es)"
    by (simp_all split: if_splits)
  have d1: "distinct es1" and e1: "\<forall>c \<in> set es1. in_grid g c \<and> cell g c = -1"
    using inv es1 by (auto simp: pass_inv_def distinct_get_empty_cells get_empty_cells_inv)
  have old: "in_grid g old" "cell g old \<noteq> -1" and rest: "\<forall>c \<in> set rest. in_grid g c \<and> cell g c \<noteq> -1"
    and dr: "distinct rest" "old \<notin> set rest"
    using inv by (simp_all add: pass_inv_def)
  show a: "in_grid g new" and b: "cell g new = -1" using new e1 by auto
  show c: "new \<noteq> old" using b old by auto
  show d: "new \<notin> set rest" using b rest by auto
  show "g' = set_cell (set_cell g new (cell g old)) old (-1)" by (rule g')
  show "r' = (\<lambda>i. r (Suc i))" by (rule r')
  show "new \<in> set (if es = [] then get_empty_cells g else es)" using new es1 by simp
  have other: "\<And>c. c \<noteq> old \<Longrightarrow> c \<noteq> new \<Longrightarrow> cell g' c = cell g c"
    by (simp add: g' cell_set_cell_other)
  have "\<forall>c \<in> set es'. in_grid g' c \<and> cell g' c = -1"
  proof
    fix c assume "c \<in> set es'"
    then have "c \<in> set es1" "c \<noteq> new" using es' d1 by auto
    moreover from this have "c \<noteq> old" using e1 old by auto
    ultimately show "in_grid g' c \<and> cell g' c = -1" using e1 other by (simp add: g')
  qed
  moreover have "\<forall>c \<in> set rest. in_grid g' c \<and> cell g' c \<noteq> -1"
  proof
    fix c assume "c \<in> set rest"
    then have "c \<noteq> old" "c \<noteq> new" "in_grid g c" "cell g c \<noteq> -1" using dr d rest by auto
    then show "in_grid g' c \<and> cell g' c \<noteq> -1" using other by (simp add: g')
  qed
  ultimately show "pass_inv g' es' rest"
    using d1 dr es' by (simp add: pass_inv_def)
qed

lemma move_agent_cells:
  assumes inv: "pass_inv g es (old # rest)"
    and mv: "move_agent g es r old = Inr (g', es', r', new)"
  shows "cell g' new = cell g old" and "cell g' old = -1"
    and "\<And>c. c \<noteq> old \<Longrightarrow> c \<noteq> new \<Longrightarrow> cell g' c = cell g c"
    and "in_grid g' = in_grid g"
    and "map length g' = map length g"
    and "mset (concat g') = mset (concat g)"
proof -
  note s = move_agent_step[OF inv mv]
  have old: "in_grid g old" "cell g old \<noteq> -1" using inv by (simp_all add: pass_inv_def)
  show "cell g' new = cell g old"
    using s(1,3) by (simp add: s(5) cell_set_cell_other cell_set_cell_same)
  show "cell g' old = -1" using old by (simp add: s(5) cell_set_cell_same)
  show "\<And>c. c \<noteq> old \<Longrightarrow> c \<noteq> new \<Longrightarrow> cell g' c = cell g c"
    by (simp add: s(5) cell_set_cell_other)
  show "in_grid g' = in_grid g" by (rule ext) (simp add: s(5))
  show "map length g' = map length g" by (simp add: s(5))
  show "mset (concat g') = mset (concat g)"
    unfolding s(5) by (rule mset_concat_move[OF old(1) s(1) s(2) old(2)])
qed

section \<open>The relocation loop\<close>

lemma relocate_Cons_Inr:
  assumes "relocate g es r (old # rest) = Inr (g', es', r', moves)"
  obtains g1 es1 r1 new moves1 where
    "move_agent g es r old = Inr (g1, es1, r1, new)"
    "relocate g1 es1 r1 rest = Inr (g', es', r', moves1)"
    "moves = \<lparr>before = g, spots = es, source = old, dest = new\<rparr> # moves1"
  using assms by (auto split: sum.splits)

lemma relocate_sources:
  "relocate g es r todo = Inr (g', es', r', moves) \<Longrightarrow> map source moves = todo"
proof (induction todo arbitrary: g es r moves)
  case Nil
  then show ?case by simp
next
  case (Cons old rest)
  from Cons.prems show ?case
    by (rule relocate_Cons_Inr) (use Cons.IH in auto)
qed

lemma relocate_preserves:
  assumes "pass_inv g es todo" and "relocate g es r todo = Inr (g', es', r', moves)"
  shows "mset (concat g') = mset (concat g) \<and> map length g' = map length g
         \<and> pass_inv g' es' []"
  using assms
proof (induction todo arbitrary: g es r moves)
  case Nil
  then show ?case by simp
next
  case (Cons old rest)
  from Cons.prems(2) show ?case
  proof (rule relocate_Cons_Inr)
    fix g1 es1 r1 new moves1
    assume mv: "move_agent g es r old = Inr (g1, es1, r1, new)"
      and rl: "relocate g1 es1 r1 rest = Inr (g', es', r', moves1)"
    have inv1: "pass_inv g1 es1 rest" by (rule move_agent_step(8)[OF Cons.prems(1) mv])
    from Cons.IH[OF inv1 rl] move_agent_cells(5,6)[OF Cons.prems(1) mv]
    show ?thesis by simp
  qed
qed

text \<open>every move is valid at its own time\<close>
lemma relocate_moves_valid:
  assumes "pass_inv g es todo" and "relocate g es r todo = Inr (g', es', r', moves)"
  shows "\<forall>m \<in> set moves. in_grid (before m) (dest m) \<and> cell (before m) (dest m) = -1
           \<and> in_grid (before m) (source m) \<and> cell (before m) (source m) \<noteq> -1
           \<and> dest m \<noteq> source m
           \<and> dest m \<in> set (if spots m = [] then get_empty_cells (before m) else spots m)"
  using assms
proof (induction todo arbitrary: g es r moves)
  case Nil
  then show ?case by simp
next
  case (Cons old rest)
  from Cons.prems(2) show ?case
  proof (rule relocate_Cons_Inr)
    fix g1 es1 r1 new moves1
    assume mv: "move_agent g es r old = Inr (g1, es1, r1, new)"
      and rl: "relocate g1 es1 r1 rest = Inr (g', es', r', moves1)"
      and ms: "moves = \<lparr>before = g, spots = es, source = old, dest = new\<rparr> # moves1"
    note s = move_agent_step[OF Cons.prems(1) mv]
    have old: "in_grid g old" "cell g old \<noteq> -1" using Cons.prems(1) by (simp_all add: pass_inv_def)
    from Cons.IH[OF s(8) rl] s(1,2,3,7) old ms
    show ?thesis by (auto split: if_splits)
  qed
qed


text \<open>an occupied cell that is not waiting to be moved is left alone\<close>
lemma relocate_untouched:
  assumes "pass_inv g es todo" and "relocate g es r todo = Inr (g', es', r', moves)"
    and "in_grid g c" and "cell g c \<noteq> -1" and "c \<notin> set todo"
  shows "c \<notin> set (map dest moves) \<and> cell g' c = cell g c"
  using assms
proof (induction todo arbitrary: g es r moves)
  case Nil
  then show ?case by simp
next
  case (Cons old rest)
  from Cons.prems(2) show ?case
  proof (rule relocate_Cons_Inr)
    fix g1 es1 r1 new moves1
    assume mv: "move_agent g es r old = Inr (g1, es1, r1, new)"
      and rl: "relocate g1 es1 r1 rest = Inr (g', es', r', moves1)"
      and ms: "moves = \<lparr>before = g, spots = es, source = old, dest = new\<rparr> # moves1"
    note s = move_agent_step[OF Cons.prems(1) mv]
    note k = move_agent_cells[OF Cons.prems(1) mv]
    have ne: "c \<noteq> old" "c \<noteq> new" "c \<notin> set rest"
      using Cons.prems(4,5) s(2) by auto
    have c1: "cell g1 c = cell g c" using ne k(3) by simp
    have "in_grid g1 c" using Cons.prems(3) k(4) by simp
    from Cons.IH[OF s(8) rl this _ ne(3)] c1 Cons.prems(4) ne ms
    show ?thesis by simp
  qed
qed

text \<open>an empty cell that is never a destination stays empty\<close>
lemma relocate_stays_empty:
  assumes "pass_inv g es todo" and "relocate g es r todo = Inr (g', es', r', moves)"
    and "cell g c = -1" and "c \<notin> set (map dest moves)"
  shows "cell g' c = -1"
  using assms
proof (induction todo arbitrary: g es r moves)
  case Nil
  then show ?case by simp
next
  case (Cons old rest)
  from Cons.prems(2) show ?case
  proof (rule relocate_Cons_Inr)
    fix g1 es1 r1 new moves1
    assume mv: "move_agent g es r old = Inr (g1, es1, r1, new)"
      and rl: "relocate g1 es1 r1 rest = Inr (g', es', r', moves1)"
      and ms: "moves = \<lparr>before = g, spots = es, source = old, dest = new\<rparr> # moves1"
    note s = move_agent_step[OF Cons.prems(1) mv]
    note k = move_agent_cells[OF Cons.prems(1) mv]
    have old: "cell g old \<noteq> -1" using Cons.prems(1) by (simp add: pass_inv_def)
    have ne: "c \<noteq> old" "c \<noteq> new" using Cons.prems(3,4) old ms by auto
    have c1: "cell g1 c = -1" using ne k(3) Cons.prems(3) by simp
    from Cons.IH[OF s(8) rl c1] Cons.prems(4) ms
    show ?thesis by simp
  qed
qed

lemma relocate_dests_distinct:
  assumes "pass_inv g es todo" and "relocate g es r todo = Inr (g', es', r', moves)"
  shows "distinct (map dest moves)"
  using assms
proof (induction todo arbitrary: g es r moves)
  case Nil
  then show ?case by simp
next
  case (Cons old rest)
  from Cons.prems(2) show ?case
  proof (rule relocate_Cons_Inr)
    fix g1 es1 r1 new moves1
    assume mv: "move_agent g es r old = Inr (g1, es1, r1, new)"
      and rl: "relocate g1 es1 r1 rest = Inr (g', es', r', moves1)"
      and ms: "moves = \<lparr>before = g, spots = es, source = old, dest = new\<rparr> # moves1"
    note s = move_agent_step[OF Cons.prems(1) mv]
    note k = move_agent_cells[OF Cons.prems(1) mv]
    have old: "cell g old \<noteq> -1" using Cons.prems(1) by (simp add: pass_inv_def)
    have "in_grid g1 new" "cell g1 new \<noteq> -1" using s(1) k(1,4) old by simp_all
    from relocate_untouched[OF s(8) rl this s(4)] Cons.IH[OF s(8) rl] ms
    show ?thesis by simp
  qed
qed

text \<open>at the end, every destination holds the value its source had at the start\<close>
lemma relocate_dest_final:
  assumes "pass_inv g es todo" and "relocate g es r todo = Inr (g', es', r', moves)"
  shows "\<forall>m \<in> set moves. cell g' (dest m) = cell g (source m)
            \<and> cell (before m) (source m) = cell g (source m)"
  using assms
proof (induction todo arbitrary: g es r moves)
  case Nil
  then show ?case by simp
next
  case (Cons old rest)
  from Cons.prems(2) show ?case
  proof (rule relocate_Cons_Inr)
    fix g1 es1 r1 new moves1
    assume mv: "move_agent g es r old = Inr (g1, es1, r1, new)"
      and rl: "relocate g1 es1 r1 rest = Inr (g', es', r', moves1)"
      and ms: "moves = \<lparr>before = g, spots = es, source = old, dest = new\<rparr> # moves1"
    note s = move_agent_step[OF Cons.prems(1) mv]
    note k = move_agent_cells[OF Cons.prems(1) mv]
    have old: "cell g old \<noteq> -1" "old \<notin> set rest"
      using Cons.prems(1) by (simp_all add: pass_inv_def)
    have "in_grid g1 new" "cell g1 new \<noteq> -1" using s(1) k(1,4) old by simp_all
    from relocate_untouched[OF s(8) rl this s(4)] k(1)
    have hd: "cell g' new = cell g old" by simp
    have src: "map source moves1 = rest" using rl by (rule relocate_sources)
    have tl: "\<forall>m \<in> set moves1. cell g' (dest m) = cell g (source m)
            \<and> cell (before m) (source m) = cell g (source m)"
    proof
      fix m assume m: "m \<in> set moves1"
      then have "source m \<in> set rest" using src by force
      then have "source m \<noteq> old" "source m \<noteq> new" using old(2) s(4) by auto
      then have "cell g1 (source m) = cell g (source m)" using k(3) by simp
      with Cons.IH[OF s(8) rl] m
      show "cell g' (dest m) = cell g (source m)
            \<and> cell (before m) (source m) = cell g (source m)" by simp
    qed
    from hd tl ms show ?thesis by simp
  qed
qed

text \<open>a vacated source that is not reused as a destination is empty at the end\<close>
lemma relocate_vacated:
  assumes "pass_inv g es todo" and "relocate g es r todo = Inr (g', es', r', moves)"
    and "c \<in> set todo" and "c \<notin> set (map dest moves)"
  shows "cell g' c = -1"
  using assms
proof (induction todo arbitrary: g es r moves)
  case Nil
  then show ?case by simp
next
  case (Cons old rest)
  from Cons.prems(2) show ?case
  proof (rule relocate_Cons_Inr)
    fix g1 es1 r1 new moves1
    assume mv: "move_agent g es r old = Inr (g1, es1, r1, new)"
      and rl: "relocate g1 es1 r1 rest = Inr (g', es', r', moves1)"
      and ms: "moves = \<lparr>before = g, spots = es, source = old, dest = new\<rparr> # moves1"
    note s = move_agent_step[OF Cons.prems(1) mv]
    note k = move_agent_cells[OF Cons.prems(1) mv]
    have nd: "c \<notin> set (map dest moves1)" using Cons.prems(4) ms by simp
    show ?thesis
    proof (cases "c = old")
      case True
      then have "cell g1 c = -1" using k(2) by simp
      from relocate_stays_empty[OF s(8) rl this nd] show ?thesis .
    next
      case False
      then have "c \<in> set rest" using Cons.prems(3) by simp
      from Cons.IH[OF s(8) rl this nd] show ?thesis .
    qed
  qed
qed

text \<open>a destination is never the source of the same or of a later move\<close>
lemma relocate_dest_not_later_source:
  assumes "pass_inv g es todo" and "relocate g es r todo = Inr (g', es', r', moves)"
    and "moves = pre @ m # post"
  shows "dest m \<notin> set (map source (m # post))"
  using assms
proof (induction todo arbitrary: g es r moves pre)
  case Nil
  then show ?case by simp
next
  case (Cons old rest)
  from Cons.prems(2) show ?case
  proof (rule relocate_Cons_Inr)
    fix g1 es1 r1 new moves1
    assume mv: "move_agent g es r old = Inr (g1, es1, r1, new)"
      and rl: "relocate g1 es1 r1 rest = Inr (g', es', r', moves1)"
      and ms: "moves = \<lparr>before = g, spots = es, source = old, dest = new\<rparr> # moves1"
    note s = move_agent_step[OF Cons.prems(1) mv]
    have src: "map source moves1 = rest" using rl by (rule relocate_sources)
    show ?thesis
    proof (cases pre)
      case Nil
      then have "m = \<lparr>before = g, spots = es, source = old, dest = new\<rparr>" "post = moves1"
        using ms Cons.prems(3) by simp_all
      then show ?thesis using s(3,4) src by simp
    next
      case (Cons p pre')
      then have "moves1 = pre' @ m # post" using ms Cons.prems(3) by simp
      from Cons.IH[OF s(8) rl this] show ?thesis .
    qed
  qed
qed

lemma move_agent_after:
  assumes "move_agent g es r old = Inr (g', es', r', new)"
  shows "g' = after \<lparr>before = g, spots = es, source = old, dest = new\<rparr>
       \<and> es' = remove1 new (drawn_from \<lparr>before = g, spots = es, source = old, dest = new\<rparr>)"
proof -
  obtain es1 where pd: "pick_destination g es r = Inr (new, es1, r')"
    and es': "es' = remove1 new es1"
    and g': "g' = set_cell (set_cell g new (cell g old)) old (-1)"
    using assms by (auto simp: move_agent_def Let_def split: sum.splits)
  from pick_destination_Inr[OF pd] es' g' show ?thesis
    by (simp add: after_def drawn_from_def)
qed

text \<open>the log is a chain: each move starts from what the previous one left\<close>
lemma relocate_chain:
  assumes "relocate g es r todo = Inr (g', es', r', moves)"
  shows "(case moves of [] \<Rightarrow> True | m # _ \<Rightarrow> before m = g \<and> spots m = es)
       \<and> (\<forall>i. Suc i < length moves \<longrightarrow>
             before (moves ! Suc i) = after (moves ! i)
             \<and> spots (moves ! Suc i) = remove1 (dest (moves ! i)) (drawn_from (moves ! i)))
       \<and> g' = (if moves = [] then g else after (last moves))"
  using assms
proof (induction todo arbitrary: g es r moves)
  case Nil
  then show ?case by simp
next
  case (Cons old rest)
  from Cons.prems(1) show ?case
  proof (rule relocate_Cons_Inr)
    fix g1 es1 r1 new moves1
    assume mv: "move_agent g es r old = Inr (g1, es1, r1, new)"
      and rl: "relocate g1 es1 r1 rest = Inr (g', es', r', moves1)"
      and ms: "moves = \<lparr>before = g, spots = es, source = old, dest = new\<rparr> # moves1"
    let ?m = "\<lparr>before = g, spots = es, source = old, dest = new\<rparr>"
    note a = move_agent_after[OF mv]
    note ih = Cons.IH[OF rl]
    have 1: "case moves of [] \<Rightarrow> True | m # _ \<Rightarrow> before m = g \<and> spots m = es"
      using ms by simp
    have 2: "\<forall>i. Suc i < length moves \<longrightarrow>
             before (moves ! Suc i) = after (moves ! i)
             \<and> spots (moves ! Suc i) = remove1 (dest (moves ! i)) (drawn_from (moves ! i))"
    proof (intro allI impI)
      fix i assume i: "Suc i < length moves"
      show "before (moves ! Suc i) = after (moves ! i)
             \<and> spots (moves ! Suc i) = remove1 (dest (moves ! i)) (drawn_from (moves ! i))"
      proof (cases i)
        case 0
        then obtain m1 ms1 where "moves1 = m1 # ms1" using i ms by (cases moves1) auto
        with ih a 0 ms show ?thesis by simp
      next
        case (Suc j)
        then have "Suc j < length moves1" using i ms by simp
        with ih Suc ms show ?thesis by simp
      qed
    qed
    have 3: "g' = (if moves = [] then g else after (last moves))"
      using ih a ms by (cases moves1) auto
    from 1 2 3 show ?thesis by blast
  qed
qed

lemma find_unhappy_cells_Inr:
  assumes "find_unhappy_cells g t r = Inr (unhappy, r1)"
  shows "set unhappy = set (unhappy_scan g t)" and "distinct unhappy"
    and "length unhappy = length (unhappy_scan g t)" and "unhappy \<noteq> []"
    and "mset unhappy = mset (unhappy_scan g t)"
proof -
  have ne: "unhappy_scan g t \<noteq> []" and sh: "random_shuffle (unhappy_scan g t) r = (unhappy, r1)"
    using assms by (auto simp: find_unhappy_cells_def Let_def split: if_splits)
  then have u: "unhappy = fst (random_shuffle (unhappy_scan g t) r)" by simp
  show "set unhappy = set (unhappy_scan g t)" by (simp add: u set_random_shuffle)
  show "distinct unhappy" by (simp add: u distinct_random_shuffle distinct_unhappy_scan)
  show "length unhappy = length (unhappy_scan g t)" by (simp add: u length_random_shuffle)
  then show "unhappy \<noteq> []" using ne by auto
  show "mset unhappy = mset (unhappy_scan g t)" by (simp add: u mset_random_shuffle)
qed

lemma pass_inv_start:
  assumes "find_unhappy_cells g t r = Inr (unhappy, r1)"
  shows "pass_inv g (get_empty_cells g) unhappy"
proof -
  note f = find_unhappy_cells_Inr[OF assms]
  have "\<forall>c \<in> set unhappy. in_grid g c \<and> cell g c \<noteq> -1"
  proof
    fix c assume "c \<in> set unhappy"
    then have "c \<in> set (unhappy_scan g t)" using f(1) by simp
    moreover obtain y x where "c = (y, x)" by (cases c)
    ultimately show "in_grid g c \<and> cell g c \<noteq> -1"
      by (simp add: in_unhappy_scan in_grid_def cell_def)
  qed
  then show ?thesis
    using f(2) by (simp add: pass_inv_def distinct_get_empty_cells get_empty_cells_inv)
qed

lemma update_pass_Inr:
  assumes "update_pass g t r = Inr (unhappy, g', r', moves)"
  obtains r1 es' where "find_unhappy_cells g t r = Inr (unhappy, r1)"
    and "relocate g (get_empty_cells g) r1 unhappy = Inr (g', es', r', moves)"
    and "pass_inv g (get_empty_cells g) unhappy"
proof -
  from assms obtain r1 es' where f: "find_unhappy_cells g t r = Inr (unhappy, r1)"
    and rl: "relocate g (get_empty_cells g) r1 unhappy = Inr (g', es', r', moves)"
    by (auto simp: update_pass_def split: sum.splits)
  from that[OF f rl pass_inv_start[OF f]] show thesis .
qed

lemma update_Inr:
  assumes "update g t r = Inr (n, g', r')"
  obtains unhappy moves where "update_pass g t r = Inr (unhappy, g', r', moves)"
    and "n = length unhappy"
  using assms by (auto simp: update_def split: sum.splits)

lemma relocate_succeeds:
  assumes "pass_inv g es todo" and "get_empty_cells g \<noteq> []"
  shows "\<exists>g' es' r' moves. relocate g es r todo = Inr (g', es', r', moves)"
  using assms
proof (induction todo arbitrary: g es r)
  case Nil
  then show ?case by simp
next
  case (Cons old rest)
  have "\<not> (\<exists>e. move_agent g es r old = Inl e)"
    using Cons.prems(2) by (simp add: move_agent_Inl)
  then obtain g1 es1 r1 new where mv: "move_agent g es r old = Inr (g1, es1, r1, new)"
    by (cases "move_agent g es r old") auto
  note s = move_agent_step[OF Cons.prems(1) mv]
  note k = move_agent_cells[OF Cons.prems(1) mv]
  have "in_grid g old" using Cons.prems(1) by (simp add: pass_inv_def)
  then have "old \<in> set (get_empty_cells g1)"
    using k(2,4) by (simp add: get_empty_cells_inv)
  then have "get_empty_cells g1 \<noteq> []" by auto
  from Cons.IH[OF s(8) this, of r1] mv show ?case by auto
qed

lemma relocate_fails:
  assumes "pass_inv g es todo" and "get_empty_cells g = []" and "todo \<noteq> []"
  shows "relocate g es r todo = Inl IndexError"
proof -
  obtain old rest where t: "todo = old # rest" using assms(3) by (cases todo) auto
  have "es = []"
  proof (rule ccontr)
    assume "es \<noteq> []"
    then obtain c where "c \<in> set es" by (cases es) auto
    then have "c \<in> set (get_empty_cells g)"
      using assms(1) by (simp add: pass_inv_def get_empty_cells_inv)
    with assms(2) show False by simp
  qed
  then have "move_agent g es r old = Inl IndexError"
    using assms(2) by (simp add: move_agent_Inl)
  then show ?thesis by (simp add: t)
qed

text \<open>update returns exactly when some cell is unhappy and some cell is empty\<close>
lemma update_pass_result:
  "update_pass g t r =
     (if unhappy_scan g t = [] then Inl SystemExit
      else if get_empty_cells g = [] then Inl IndexError
      else update_pass g t r) \<and>
   (unhappy_scan g t \<noteq> [] \<and> get_empty_cells g \<noteq> []
      \<longleftrightarrow> (\<exists>res. update_pass g t r = Inr res))"
proof (cases "unhappy_scan g t = []")
  case True
  then show ?thesis by (simp add: update_pass_def find_unhappy_cells_def)
next
  case False
  obtain unhappy r1 where f: "find_unhappy_cells g t r = Inr (unhappy, r1)"
    using False by (cases "random_shuffle (unhappy_scan g t) r") (simp add: find_unhappy_cells_def)
  note inv = pass_inv_start[OF f]
  note u = find_unhappy_cells_Inr[OF f]
  show ?thesis
  proof (cases "get_empty_cells g = []")
    case True
    from relocate_fails[OF inv True u(4)] f False True show ?thesis
      by (simp add: update_pass_def)
  next
    case e: False
    from relocate_succeeds[OF inv e, of r1] f False e show ?thesis
      by (auto simp add: update_pass_def)
  qed
qed

section \<open>Rounding on the products of the test\<close>

text \<open>
  The counts of the test are at most 8. On them the conversion to a double is
  exact, and for every count \<open>k\<close> out of \<open>n\<close> the double \<open>k / n\<close> times
  \<open>n\<close> rounds to a double that is not above \<open>k\<close>.
\<close>

lemma round_double_small:
  "\<forall>n \<in> set [0..8]. round_double (of_int n) = of_int n"
  by code_simp

lemma boundary_table:
  "\<forall>n \<in> set [1..8]. \<forall>k \<in> set [0..n].
      \<not> of_int k < mul_int_float n (round_double (of_int k / of_int n))"
  by code_simp

lemma mul_int_float_zero: "mul_int_float 0 t = 0"
  by (simp add: mul_int_float_def round_double_def)

lemma mul_int_float_exact:
  assumes "0 \<le> k" and "k \<le> n" and "1 \<le> n" and "n \<le> 8"
  shows "mul_int_float n (of_int k / of_int n) = of_int k"
proof -
  have n: "round_double (of_int n) = of_int n" and k: "round_double (of_int k) = of_int k"
    using assms round_double_small by auto
  have "(of_int n :: rat) * (of_int k / of_int n) = of_int k" using assms by simp
  then show ?thesis by (simp add: mul_int_float_def n k)
qed

section \<open>Classification\<close>

text \<open>
  Claim C2. An occupied cell with at least one occupied neighbour is in the list of
  unhappy cells exactly when the number of its occupied neighbours of its own type
  is strictly below the double that the product of the number of its occupied
  neighbours and the threshold rounds to. So a cell whose fraction of same-type
  occupied neighbours equals the threshold is not marked unhappy, be the
  threshold that fraction exactly or the double that the division
  \<open>same_count / len(occupied)\<close> returns.
\<close>

theorem unhappy_iff_strictly_below_threshold:
  assumes "y < length g" and "x < length (g ! y)" and "g ! y ! x \<noteq> -1"
    and "occupied = [v \<leftarrow> get_neighbours g y x. v \<noteq> -1]"
    and "occupied \<noteq> []"
    and "same_count = length [v \<leftarrow> occupied. v = g ! y ! x]"
  shows "(marked_unhappy g t r (y, x)
            \<longleftrightarrow> of_nat same_count < mul_int_float (int (length occupied)) t)
       \<and> (of_nat same_count / of_nat (length occupied) = t
            \<longrightarrow> \<not> marked_unhappy g t r (y, x))
       \<and> (t = round_double (of_nat same_count / of_nat (length occupied))
            \<longrightarrow> \<not> marked_unhappy g t r (y, x))"
proof -
  let ?n = "int (length occupied)" and ?k = "int same_count"
  have iff: "marked_unhappy g t r (y, x)
      \<longleftrightarrow> of_nat same_count < mul_int_float ?n t"
    using assms by (simp add: marked_unhappy_iff in_unhappy_scan unhappy_cond_iff)
  have "length occupied \<le> length (get_neighbours g y x)" using assms(4) by simp
  then have n8: "?n \<le> 8" using length_get_neighbours[of g y x] by linarith
  have n1: "1 \<le> ?n" using assms(5) by (cases occupied) simp_all
  have kn: "0 \<le> ?k" "?k \<le> ?n" using assms(6) by simp_all
  have exact: "mul_int_float ?n (of_nat same_count / of_nat (length occupied)) = of_nat same_count"
    using mul_int_float_exact[OF kn n1 n8] by simp
  have "?n \<in> set [1..8]" "?k \<in> set [0..?n]" using n1 n8 kn by simp_all
  with boundary_table have "\<not> of_int ?k < mul_int_float ?n (round_double (of_int ?k / of_int ?n))"
    by blast
  then have rounded: "\<not> of_nat same_count
      < mul_int_float ?n (round_double (of_nat same_count / of_nat (length occupied)))"
    by simp
  from iff exact rounded show ?thesis by auto
qed

theorem unhappy_iff_strictly_below_threshold_witness:
  "marked_unhappy [[2, 3, 2]] (1 / 2) (\<lambda>i. i) (0, 1)
     \<and> \<not> marked_unhappy [[2, 2, 3]] (1 / 2) (\<lambda>i. i) (0, 1)
     \<and> round_double (2 / 5) = 3602879701896397 / 9007199254740992
     \<and> \<not> marked_unhappy [[2, 2, 3], [3, 2, 3], [-1, -1, -1]]
           (3602879701896397 / 9007199254740992) (\<lambda>i. i) (1, 1)"
proof -
  have a: "[v \<leftarrow> get_neighbours [[2, 3, 2]] 0 (Suc 0). v \<noteq> -1] = [2, 2]"
    by code_simp
  have b: "[v \<leftarrow> get_neighbours [[2, 2, 3]] 0 (Suc 0). v \<noteq> -1] = [2, 3]"
    by code_simp
  have c: "[v \<leftarrow> get_neighbours [[2, 2, 3], [3, 2, 3], [-1, -1, -1]] (Suc 0) (Suc 0). v \<noteq> -1]
      = [2, 2, 3, 3, 3]"
    by code_simp
  have h: "mul_int_float 2 (1 / 2) = 1" by code_simp
  have d: "round_double (2 / 5) = 3602879701896397 / 9007199254740992" by code_simp
  have e: "mul_int_float 5 (3602879701896397 / 9007199254740992) = 2" by code_simp
  have "marked_unhappy [[2, 3, 2]] (1 / 2) (\<lambda>i. i) (0, 1)"
    using unhappy_iff_strictly_below_threshold
      [of 0 "[[2, 3, 2]]" 1 "[2, 2]" 0 "1 / 2" "\<lambda>i. i"] a h
    by simp
  moreover have "\<not> marked_unhappy [[2, 2, 3]] (1 / 2) (\<lambda>i. i) (0, 1)"
    using unhappy_iff_strictly_below_threshold
      [of 0 "[[2, 2, 3]]" 1 "[2, 3]" 1 "1 / 2" "\<lambda>i. i"] b h
    by simp
  moreover have "\<not> marked_unhappy [[2, 2, 3], [3, 2, 3], [-1, -1, -1]]
           (3602879701896397 / 9007199254740992) (\<lambda>i. i) (1, 1)"
    using unhappy_iff_strictly_below_threshold
      [of 1 "[[2, 2, 3], [3, 2, 3], [-1, -1, -1]]" 1 "[2, 2, 3, 3, 3]" 2
          "3602879701896397 / 9007199254740992" "\<lambda>i. i"] c e
    by simp
  ultimately show ?thesis using d by simp
qed

text \<open>
  Claim C3. An occupied cell all of whose neighbours inside the grid are empty is
  not marked unhappy, whatever the threshold in \<open>[0, 1)\<close>: both sides of the test
  are zero.
\<close>

theorem isolated_cell_is_happy:
  assumes "y < length g" and "x < length (g ! y)" and "g ! y ! x \<noteq> -1"
    and "\<forall>v \<in> set (get_neighbours g y x). v = -1"
    and "0 \<le> t" and "t < 1"
  shows "\<not> marked_unhappy g t r (y, x) \<and> (y, x) \<notin> set (unhappy_scan g t)"
proof -
  have "[v \<leftarrow> get_neighbours g y x. v \<noteq> -1] = []"
    using assms(4) by (simp add: filter_empty_conv)
  then have "\<not> unhappy_cond g t y x (g ! y ! x)"
    by (simp add: unhappy_cond_iff mul_int_float_zero)
  then show ?thesis
    by (simp add: marked_unhappy_iff in_unhappy_scan)
qed

theorem isolated_cell_is_happy_witness:
  "\<not> marked_unhappy [[-1, -1, 3], [2, -1, -1]] (9 / 10) (\<lambda>i. i) (1, 0)
     \<and> (1, 0) \<notin> set (unhappy_scan [[-1, -1, 3], [2, -1, -1]] (9 / 10))"
proof -
  let ?g = "[[-1, -1, 3], [2, -1, -1 :: int]]"
  have n: "get_neighbours ?g (Suc 0) 0 = [-1, -1, -1]"
    by code_simp
  have "\<forall>v \<in> set (get_neighbours ?g (Suc 0) 0). v = -1"
    by (simp add: n)
  then show ?thesis
    using isolated_cell_is_happy [of "Suc 0" ?g 0 "9 / 10" "\<lambda>i. i"] by simp
qed

section \<open>The relocation pass\<close>

text \<open>
  Claim C1. Whenever \<open>_update\<close> returns, the grid holds the same multiset of
  agent values as before, the same number of empty cells, and has the same shape.
\<close>

theorem update_conserves_agents:
  assumes "update g t r = Inr (n, g', r')"
  shows "mset [v \<leftarrow> concat g'. v \<noteq> -1] = mset [v \<leftarrow> concat g. v \<noteq> -1]
       \<and> count_list (concat g') (-1) = count_list (concat g) (-1)
       \<and> map length g' = map length g"
proof -
  from assms obtain unhappy moves where up: "update_pass g t r = Inr (unhappy, g', r', moves)"
    by (rule update_Inr)
  from up obtain r1 es' where
    rl: "relocate g (get_empty_cells g) r1 unhappy = Inr (g', es', r', moves)"
    and inv: "pass_inv g (get_empty_cells g) unhappy"
    by (rule update_pass_Inr)
  from relocate_preserves[OF inv rl]
  have m: "mset (concat g') = mset (concat g)" and l: "map length g' = map length g"
    by simp_all
  have "mset [v \<leftarrow> concat g'. v \<noteq> -1] = filter_mset (\<lambda>v. v \<noteq> -1) (mset (concat g'))"
    by simp
  also have "\<dots> = mset [v \<leftarrow> concat g. v \<noteq> -1]" by (simp add: m)
  finally have a: "mset [v \<leftarrow> concat g'. v \<noteq> -1] = mset [v \<leftarrow> concat g. v \<noteq> -1]" .
  have "count (mset (concat g')) (-1) = count (mset (concat g)) (-1)" by (simp add: m)
  then have b: "count_list (concat g') (-1) = count_list (concat g) (-1)"
    by (simp only: count_mset)
  from a b l show ?thesis by simp
qed

theorem update_conserves_agents_witness:
  "\<exists>r'. update [[2, 3, -1]] (1 / 2) (\<lambda>i. i) = Inr (2, [[-1, 2, 3]], r')
     \<and> mset [v \<leftarrow> concat [[-1, 2, 3]]. v \<noteq> -1] = mset [v \<leftarrow> concat [[2, 3, -1]]. v \<noteq> (-1::int)]
     \<and> count_list (concat [[-1, 2, 3]]) (-1::int) = count_list (concat [[2, 3, -1]]) (-1::int)"
proof -
  have "(case update [[2, 3, -1]] (1 / 2) (\<lambda>i. i) of
           Inl e \<Rightarrow> None | Inr (n, g', r') \<Rightarrow> Some (n, g')) = Some (2, [[-1, 2, 3]])"
    by code_simp
  then obtain r' where u: "update [[2, 3, -1]] (1 / 2) (\<lambda>i. i) = Inr (2, [[-1, 2, 3]], r')"
    by (auto split: sum.splits)
  from update_conserves_agents[OF u] u show ?thesis by blast
qed

text \<open>
  Claim C10. In a relocation pass, every move finds its destination inside the
  grid and empty in the grid of that moment, and its source occupied; so the
  destination differs from the source, the move overwrites no agent, and after the
  move the agent is at the destination and the source is empty. The log is the
  pass itself: it starts from the grid given, each move starts from the grid the
  previous one left, and the last one leaves the grid the pass returns.
\<close>

theorem destination_is_empty_when_chosen:
  assumes "update_pass g t r = Inr (unhappy, g', r', moves)"
  shows "(\<forall>m \<in> set moves.
            in_grid (before m) (dest m) \<and> cell (before m) (dest m) = -1
          \<and> in_grid (before m) (source m) \<and> cell (before m) (source m) \<noteq> -1
          \<and> dest m \<noteq> source m
          \<and> cell (after m) (dest m) = cell (before m) (source m)
          \<and> cell (after m) (source m) = -1
          \<and> mset (concat (after m)) = mset (concat (before m)))
       \<and> map source moves = unhappy
       \<and> before (hd moves) = g
       \<and> (\<forall>i. Suc i < length moves \<longrightarrow> before (moves ! Suc i) = after (moves ! i))
       \<and> g' = after (last moves)"
proof -
  from assms obtain r1 es' where f: "find_unhappy_cells g t r = Inr (unhappy, r1)"
    and rl: "relocate g (get_empty_cells g) r1 unhappy = Inr (g', es', r', moves)"
    and inv: "pass_inv g (get_empty_cells g) unhappy"
    by (rule update_pass_Inr)
  have src: "map source moves = unhappy" using rl by (rule relocate_sources)
  have "unhappy \<noteq> []" using f by (rule find_unhappy_cells_Inr(4))
  then have ne: "moves \<noteq> []" using src by auto
  note v = relocate_moves_valid[OF inv rl]
  note ch = relocate_chain[OF rl]
  have 1: "\<forall>m \<in> set moves.
            in_grid (before m) (dest m) \<and> cell (before m) (dest m) = -1
          \<and> in_grid (before m) (source m) \<and> cell (before m) (source m) \<noteq> -1
          \<and> dest m \<noteq> source m
          \<and> cell (after m) (dest m) = cell (before m) (source m)
          \<and> cell (after m) (source m) = -1
          \<and> mset (concat (after m)) = mset (concat (before m))"
  proof
    fix m assume "m \<in> set moves"
    with v have a: "in_grid (before m) (dest m)" "cell (before m) (dest m) = -1"
      "in_grid (before m) (source m)" "cell (before m) (source m) \<noteq> -1" "dest m \<noteq> source m"
      by auto
    have "cell (after m) (dest m) = cell (before m) (source m)"
      using a(1,5) by (simp add: after_def cell_set_cell_other cell_set_cell_same)
    moreover have "cell (after m) (source m) = -1"
      using a(3) by (simp add: after_def cell_set_cell_same)
    moreover have "mset (concat (after m)) = mset (concat (before m))"
      unfolding after_def by (rule mset_concat_move[OF a(3) a(1) a(2) a(4)])
    ultimately show "in_grid (before m) (dest m) \<and> cell (before m) (dest m) = -1
          \<and> in_grid (before m) (source m) \<and> cell (before m) (source m) \<noteq> -1
          \<and> dest m \<noteq> source m
          \<and> cell (after m) (dest m) = cell (before m) (source m)
          \<and> cell (after m) (source m) = -1
          \<and> mset (concat (after m)) = mset (concat (before m))"
      using a by simp
  qed
  have 2: "before (hd moves) = g" using ch ne by (cases moves) simp_all
  have 3: "\<forall>i. Suc i < length moves \<longrightarrow> before (moves ! Suc i) = after (moves ! i)"
    using ch by simp
  have 4: "g' = after (last moves)" using ch ne by simp
  from 1 src 2 3 4 show ?thesis by blast
qed

lemma pass_example:
  "\<exists>r'. update_pass [[2, 3, -1]] (1 / 2) (\<lambda>i. i) =
     Inr ([(0, 1), (0, 0)], [[-1, 2, 3]], r',
          [\<lparr>before = [[2, 3, -1]], spots = [(0, 2)], source = (0, 1), dest = (0, 2)\<rparr>,
           \<lparr>before = [[2, -1, 3]], spots = [], source = (0, 0), dest = (0, 1)\<rparr>])"
proof -
  have "(case update_pass [[2, 3, -1]] (1 / 2) (\<lambda>i. i) of
           Inl e \<Rightarrow> None | Inr (u, g', r', ms) \<Rightarrow> Some (u, g', ms)) =
        Some ([(0, 1), (0, 0)], [[-1, 2, 3]],
          [\<lparr>before = [[2, 3, -1]], spots = [(0, 2)], source = (0, 1), dest = (0, 2)\<rparr>,
           \<lparr>before = [[2, -1, 3]], spots = [], source = (0, 0), dest = (0, 1)\<rparr>])"
    by code_simp
  then show ?thesis by (auto split: sum.splits)
qed

theorem destination_is_empty_when_chosen_witness:
  "\<exists>r'. update_pass [[2, 3, -1]] (1 / 2) (\<lambda>i. i) =
     Inr ([(0, 1), (0, 0)], [[-1, 2, 3]], r',
          [\<lparr>before = [[2, 3, -1]], spots = [(0, 2)], source = (0, 1), dest = (0, 2)\<rparr>,
           \<lparr>before = [[2, -1, 3]], spots = [], source = (0, 0), dest = (0, 1)\<rparr>])
     \<and> cell [[2, 3, -1]] (0, 2) = -1 \<and> cell [[2, -1, 3]] (0, 1) = -1
     \<and> [[2, -1, 3]] = after \<lparr>before = [[2, 3, -1]], spots = [(0, 2)], source = (0, 1), dest = (0, 2)\<rparr>"
proof -
  from pass_example obtain r' where u: "update_pass [[2, 3, -1]] (1 / 2) (\<lambda>i. i) =
     Inr ([(0, 1), (0, 0)], [[-1, 2, 3]], r',
          [\<lparr>before = [[2, 3, -1]], spots = [(0, 2)], source = (0, 1), dest = (0, 2)\<rparr>,
           \<lparr>before = [[2, -1, 3]], spots = [], source = (0, 0), dest = (0, 1)\<rparr>])" ..
  have "cell [[2, 3, -1]] (0, 2) = -1 \<and> cell [[2, -1, 3]] (0, 1) = -1
     \<and> [[2, -1, 3]] = after \<lparr>before = [[2, 3, -1]], spots = [(0, 2)], source = (0, 1), dest = (0, 2)\<rparr>"
    using destination_is_empty_when_chosen[OF u] by (simp add: all_conj_distrib)
  with u show ?thesis by blast
qed

text \<open>
  Claim C4. In a relocation pass every destination is drawn from the working list
  of that turn, or from a rescan of the current grid when the working list is
  empty; the working list starts as the empty cells of the grid and loses each
  destination chosen; no cell is chosen as a destination twice in a pass. A
  rescan can hand out a cell vacated earlier in the same pass: there is a pass
  in which it does.
\<close>

theorem destination_from_working_list:
  assumes "update_pass g t r = Inr (unhappy, g', r', moves)"
  shows "(\<forall>m \<in> set moves.
            dest m \<in> set (if spots m = [] then get_empty_cells (before m) else spots m))
       \<and> spots (hd moves) = get_empty_cells g
       \<and> (\<forall>i. Suc i < length moves \<longrightarrow>
             spots (moves ! Suc i) =
               remove1 (dest (moves ! i))
                 (if spots (moves ! i) = [] then get_empty_cells (before (moves ! i))
                  else spots (moves ! i)))
       \<and> distinct (map dest moves)
       \<and> (\<exists>g0 t0 r0 unhappy0 g1 r1 moves0 i j.
             update_pass g0 t0 r0 = Inr (unhappy0, g1, r1, moves0)
             \<and> i < j \<and> j < length moves0 \<and> spots (moves0 ! j) = []
             \<and> dest (moves0 ! j) = source (moves0 ! i))"
proof -
  from assms obtain r1 es' where f: "find_unhappy_cells g t r = Inr (unhappy, r1)"
    and rl: "relocate g (get_empty_cells g) r1 unhappy = Inr (g', es', r', moves)"
    and inv: "pass_inv g (get_empty_cells g) unhappy"
    by (rule update_pass_Inr)
  have src: "map source moves = unhappy" using rl by (rule relocate_sources)
  have "unhappy \<noteq> []" using f by (rule find_unhappy_cells_Inr(4))
  then have ne: "moves \<noteq> []" using src by auto
  note ch = relocate_chain[OF rl]
  have 1: "\<forall>m \<in> set moves.
            dest m \<in> set (if spots m = [] then get_empty_cells (before m) else spots m)"
    using relocate_moves_valid[OF inv rl] by simp
  have 2: "spots (hd moves) = get_empty_cells g" using ch ne by (cases moves) simp_all
  have 3: "\<forall>i. Suc i < length moves \<longrightarrow>
             spots (moves ! Suc i) =
               remove1 (dest (moves ! i))
                 (if spots (moves ! i) = [] then get_empty_cells (before (moves ! i))
                  else spots (moves ! i))"
    using ch by (simp add: drawn_from_def)
  have 4: "distinct (map dest moves)" using inv rl by (rule relocate_dests_distinct)
  from pass_example obtain rx where u: "update_pass [[2, 3, -1]] (1 / 2) (\<lambda>i. i) =
     Inr ([(0, 1), (0, 0)], [[-1, 2, 3]], rx,
          [\<lparr>before = [[2, 3, -1]], spots = [(0, 2)], source = (0, 1), dest = (0, 2)\<rparr>,
           \<lparr>before = [[2, -1, 3]], spots = [], source = (0, 0), dest = (0, 1)\<rparr>])" ..
  let ?ms = "[\<lparr>before = [[2, 3, -1]], spots = [(0, 2)], source = (0, 1), dest = (0, 2)\<rparr>,
           \<lparr>before = [[2, -1, 3]], spots = [], source = (0, 0), dest = (0, 1)\<rparr>]"
  have "(0::nat) < 1 \<and> 1 < length ?ms \<and> spots (?ms ! 1) = []
             \<and> dest (?ms ! 1) = source (?ms ! 0)" by simp
  with u have 5: "\<exists>g0 t0 r0 unhappy0 g1 r1 moves0 i j.
             update_pass g0 t0 r0 = Inr (unhappy0, g1, r1, moves0)
             \<and> i < j \<and> j < length moves0 \<and> spots (moves0 ! j) = []
             \<and> dest (moves0 ! j) = source (moves0 ! i)" by blast
  from 1 2 3 4 5 show ?thesis by blast
qed

theorem destination_from_working_list_witness:
  "\<exists>r'. update_pass [[2, 3, -1]] (1 / 2) (\<lambda>i. i) =
     Inr ([(0, 1), (0, 0)], [[-1, 2, 3]], r',
          [\<lparr>before = [[2, 3, -1]], spots = [(0, 2)], source = (0, 1), dest = (0, 2)\<rparr>,
           \<lparr>before = [[2, -1, 3]], spots = [], source = (0, 0), dest = (0, 1)\<rparr>])
     \<and> (0, 1) \<in> set (get_empty_cells [[2, -1, 3]])
     \<and> [(0, 2)] = get_empty_cells [[2, 3, -1]]
     \<and> distinct [(0, 2), (0, 1 :: nat)]"
proof -
  from pass_example obtain r' where u: "update_pass [[2, 3, -1]] (1 / 2) (\<lambda>i. i) =
     Inr ([(0, 1), (0, 0)], [[-1, 2, 3]], r',
          [\<lparr>before = [[2, 3, -1]], spots = [(0, 2)], source = (0, 1), dest = (0, 2)\<rparr>,
           \<lparr>before = [[2, -1, 3]], spots = [], source = (0, 0), dest = (0, 1)\<rparr>])" ..
  have "(0, 1) \<in> set (get_empty_cells [[2, -1, 3]])
     \<and> [(0, 2)] = get_empty_cells [[2, 3, -1]]
     \<and> distinct [(0, 2), (0, 1 :: nat)]"
    using destination_from_working_list[OF u] by simp
  with u show ?thesis by blast
qed

text \<open>
  Claim C5. After a relocation pass, a cell that was unhappy before it is empty if
  no move of the pass chose it as a destination; if a move did, that move comes
  after the one that vacated the cell, has another cell as its source, and the
  cell holds the value that source had before the pass.
\<close>

theorem unhappy_cell_after_pass:
  assumes "update_pass g t r = Inr (unhappy, g', r', moves)"
    and "c \<in> set (unhappy_scan g t)"
  shows "(c \<notin> set (map dest moves) \<longrightarrow> cell g' c = -1)
       \<and> (\<forall>pre m post. moves = pre @ m # post \<and> dest m = c \<longrightarrow>
             c \<in> set (map source pre) \<and> source m \<noteq> c
             \<and> cell g (source m) \<noteq> -1 \<and> cell g' c = cell g (source m))"
proof -
  from assms(1) obtain r1 es' where f: "find_unhappy_cells g t r = Inr (unhappy, r1)"
    and rl: "relocate g (get_empty_cells g) r1 unhappy = Inr (g', es', r', moves)"
    and inv: "pass_inv g (get_empty_cells g) unhappy"
    by (rule update_pass_Inr)
  have src: "map source moves = unhappy" using rl by (rule relocate_sources)
  have c: "c \<in> set unhappy" using assms(2) find_unhappy_cells_Inr(1)[OF f] by simp
  have 1: "c \<notin> set (map dest moves) \<longrightarrow> cell g' c = -1"
    using relocate_vacated[OF inv rl c] by blast
  have 2: "\<forall>pre m post. moves = pre @ m # post \<and> dest m = c \<longrightarrow>
             c \<in> set (map source pre) \<and> source m \<noteq> c
             \<and> cell g (source m) \<noteq> -1 \<and> cell g' c = cell g (source m)"
  proof (intro allI impI)
    fix pre m post assume a: "moves = pre @ m # post \<and> dest m = c"
    then have ms: "moves = pre @ m # post" and d: "dest m = c" by simp_all
    have m: "m \<in> set moves" using ms by simp
    from relocate_dest_not_later_source[OF inv rl ms] d
    have later: "c \<notin> set (map source (m # post))" by simp
    have "c \<in> set (map source moves)" using c src by simp
    then have p: "c \<in> set (map source pre)" using later ms by auto
    have ne: "source m \<noteq> c" using later by auto
    from relocate_dest_final[OF inv rl] m d
    have v: "cell g' c = cell g (source m)" "cell (before m) (source m) = cell g (source m)"
      by auto
    from relocate_moves_valid[OF inv rl] m have "cell (before m) (source m) \<noteq> -1" by auto
    with v have "cell g (source m) \<noteq> -1" by simp
    with p ne v show "c \<in> set (map source pre) \<and> source m \<noteq> c
             \<and> cell g (source m) \<noteq> -1 \<and> cell g' c = cell g (source m)" by simp
  qed
  from 1 2 show ?thesis by blast
qed

theorem unhappy_cell_after_pass_witness:
  "\<exists>r'. update_pass [[2, 3, -1]] (1 / 2) (\<lambda>i. i) =
     Inr ([(0, 1), (0, 0)], [[-1, 2, 3]], r',
          [\<lparr>before = [[2, 3, -1]], spots = [(0, 2)], source = (0, 1), dest = (0, 2)\<rparr>,
           \<lparr>before = [[2, -1, 3]], spots = [], source = (0, 0), dest = (0, 1)\<rparr>])
     \<and> (0, 0) \<in> set (unhappy_scan [[2, 3, -1]] (1 / 2)) \<and> cell [[-1, 2, 3]] (0, 0) = -1
     \<and> (0, 1) \<in> set (unhappy_scan [[2, 3, -1]] (1 / 2))
     \<and> cell [[-1, 2, 3]] (0, 1) = cell [[2, 3, -1]] (0, 0)"
proof -
  let ?m1 = "\<lparr>before = [[2, 3, -1]], spots = [(0, 2)], source = (0, 1), dest = (0, 2)\<rparr>"
  let ?m2 = "\<lparr>before = [[2, -1, 3]], spots = [], source = (0, 0), dest = (0, 1)\<rparr>"
  from pass_example obtain r' where u: "update_pass [[2, 3, -1]] (1 / 2) (\<lambda>i. i) =
     Inr ([(0, 1), (0, 0)], [[-1, 2, 3]], r', [?m1, ?m2])" ..
  have s0: "(0, 0) \<in> set (unhappy_scan [[2, 3, -1]] (1 / 2))" by code_simp
  have s1: "(0, 1) \<in> set (unhappy_scan [[2, 3, -1]] (1 / 2))" by code_simp
  have a: "cell [[-1, 2, 3]] (0, 0) = -1"
    using unhappy_cell_after_pass[OF u s0] by simp
  have "[?m1, ?m2] = [?m1] @ ?m2 # [] \<and> dest ?m2 = (0, 1)" by simp
  then have b: "cell [[-1, 2, 3]] (0, 1) = cell [[2, 3, -1]] (0, 0)"
    using unhappy_cell_after_pass[OF u s1] by (metis move.select_convs(3))
  from u s0 s1 a b show ?thesis by blast
qed

section \<open>The constructor\<close>

lemma randint_list_range:
  assumes "low < high" and "randint_list low high n r = (vs, r')"
  shows "length vs = n \<and> (\<forall>v \<in> set vs. low \<le> v \<and> v < high)"
  using assms(2)
proof (induction n arbitrary: r vs r')
  case 0
  then show ?case by simp
next
  case (Suc n)
  obtain vs1 r2 where t: "randint_list low high n (\<lambda>i. r (Suc i)) = (vs1, r2)"
    by (cases "randint_list low high n (\<lambda>i. r (Suc i))")
  have k: "int (r 0 mod nat (high - low)) < high - low"
    using assms(1) by (simp add: nat_less_iff[symmetric] zless_nat_eq_int_zless[symmetric])
  from Suc.prems t have "vs = (low + int (r 0 mod nat (high - low))) # vs1"
    by (simp add: randbelow_def)
  with Suc.IH[OF t] k show ?case by auto
qed

lemma round_half_even_nonneg: "0 \<le> q \<Longrightarrow> 0 \<le> round_half_even q"
proof -
  assume "0 \<le> q"
  then have "0 \<le> \<lfloor>q\<rfloor>" by simp
  then show ?thesis by (simp add: round_half_even_def Let_def)
qed

lemma pow2_pos: "0 < pow2 e"
  by (simp add: pow2_def)

lemma round_double_nonneg: "0 \<le> x \<Longrightarrow> 0 \<le> round_double x"
proof (cases "x = 0")
  case True
  then show ?thesis by (simp add: round_double_def)
next
  case False
  assume "0 \<le> x"
  with False have x: "0 < x" by simp
  let ?e = "max (binade x - 52) (- 1074)"
  have "0 \<le> \<bar>x\<bar> / pow2 ?e" using pow2_pos[of ?e] by simp
  then have "0 \<le> round_half_even (\<bar>x\<bar> / pow2 ?e)" by (rule round_half_even_nonneg)
  then have "0 \<le> of_int (round_half_even (\<bar>x\<bar> / pow2 ?e)) * pow2 ?e"
    using pow2_pos[of ?e] by simp
  with x False show ?thesis by (simp add: round_double_def Let_def)
qed

lemma mul_int_float_nonneg: "0 \<le> n \<Longrightarrow> 0 \<le> x \<Longrightarrow> 0 \<le> mul_int_float n x"
  by (simp add: mul_int_float_def round_double_nonneg)


text \<open>emptying distinct occupied cells adds that many empty cells\<close>
lemma blank_cells:
  assumes "distinct cs" and "\<forall>c \<in> set cs. in_grid g c \<and> cell g c \<noteq> -1"
  shows "count (mset (concat (fold (\<lambda>c g. set_cell g c (-1)) cs g))) (-1)
           = count (mset (concat g)) (-1) + length cs
       \<and> map length (fold (\<lambda>c g. set_cell g c (-1)) cs g) = map length g
       \<and> set (concat (fold (\<lambda>c g. set_cell g c (-1)) cs g)) \<subseteq> insert (-1) (set (concat g))"
  using assms
proof (induction cs arbitrary: g)
  case Nil
  then show ?case by auto
next
  case (Cons c cs)
  let ?g1 = "set_cell g c (-1)"
  have c: "in_grid g c" "cell g c \<noteq> -1" using Cons.prems(2) by simp_all
  have m: "mset (concat ?g1) = add_mset (-1) (mset (concat g) - {#cell g c#})"
    using c(1) by (rule mset_concat_set_cell)
  have cnt: "count (mset (concat ?g1)) (-1) = count (mset (concat g)) (-1) + 1"
    using c(2) by (simp add: m)
  have sub: "set (concat ?g1) \<subseteq> insert (-1) (set (concat g))"
  proof -
    have "set_mset (mset (concat ?g1)) \<subseteq> insert (-1) (set_mset (mset (concat g)))"
      unfolding m using in_diffD by fastforce
    then show ?thesis by simp
  qed
  have inv: "\<forall>c' \<in> set cs. in_grid ?g1 c' \<and> cell ?g1 c' \<noteq> -1"
  proof
    fix c' assume "c' \<in> set cs"
    then have "c' \<noteq> c" "in_grid g c'" "cell g c' \<noteq> -1" using Cons.prems by auto
    then show "in_grid ?g1 c' \<and> cell ?g1 c' \<noteq> -1" by (simp add: cell_set_cell_other)
  qed
  have d: "distinct cs" using Cons.prems(1) by simp
  let ?g' = "fold (\<lambda>c g. set_cell g c (-1)) cs ?g1"
  from Cons.IH[OF d inv]
  have ih1: "count (mset (concat ?g')) (-1) = count (mset (concat ?g1)) (-1) + length cs"
    and ih2: "map length ?g' = map length ?g1"
    and ih3: "set (concat ?g') \<subseteq> insert (-1) (set (concat ?g1))"
    by blast+
  have 1: "count (mset (concat ?g')) (-1) = count (mset (concat g)) (-1) + length (c # cs)"
    using ih1 cnt by simp
  have 2: "map length ?g' = map length g" using ih2 by simp
  have 3: "set (concat ?g') \<subseteq> insert (-1) (set (concat g))"
    using ih3 sub by blast
  from 1 2 3 show ?case by simp
qed

lemma flat_coord_inj:
  assumes "0 < w"
  shows "inj_on (\<lambda>i::nat. (i div w, i mod w)) A"
proof (rule inj_onI)
  fix i j :: nat
  assume "(i div w, i mod w) = (j div w, j mod w)"
  then have "i div w = j div w" "i mod w = j mod w" by simp_all
  then show "i = j" by (metis div_mult_mod_eq)
qed

lemma init_props:
  assumes "0 < width a" and "0 < height a" and "1 \<le> agent_types a"
    and "0 \<le> percent_empty a"
  shows "\<exists>g r'. init a r = Inr (g, r')
     \<and> map length g = replicate (nat (height a)) (nat (width a))
     \<and> count_list (concat g) (-1)
         = min (nat (trunc (mul_int_float (int (nat (height a) * nat (width a))) (percent_empty a))))
               (nat (height a) * nat (width a))
     \<and> (\<forall>v \<in> set (concat g). v = -1 \<or> 2 \<le> v \<and> v \<le> agent_types a + 1)"
proof -
  let ?h = "nat (height a)" and ?w = "nat (width a)"
  let ?size = "?h * ?w"
  have w: "0 < ?w" and h: "0 < ?h" using assms by simp_all
  obtain vs r1 where rl: "randint_list 2 (agent_types a + 2) ?size r = (vs, r1)"
    by (cases "randint_list 2 (agent_types a + 2) ?size r")
  have "(2::int) < agent_types a + 2" using assms(3) by simp
  from randint_list_range[OF this rl]
  have lvs: "length vs = ?size" and rvs: "\<forall>v \<in> set vs. 2 \<le> v \<and> v < agent_types a + 2"
    by simp_all
  let ?start = "map (\<lambda>y. take ?w (drop (y * ?w) vs)) [0..<?h]"
  obtain perm r2 where sh: "random_shuffle [0..<?size] r1 = (perm, r2)"
    by (cases "random_shuffle [0..<?size] r1")
  have mp: "mset perm = mset [0..<?size]"
    using mset_random_shuffle[of "[0..<?size]" r1] sh by simp
  then have dp: "distinct perm" and sp: "set perm = {0..<?size}" and lp: "length perm = ?size"
    by (metis distinct_upt mset_eq_imp_distinct_iff, metis set_mset_mset set_upt atLeastLessThan_upt,
        metis size_mset length_upt diff_zero)
  let ?k = "trunc (mul_int_float (int ?size) (percent_empty a))"
  have "0 \<le> mul_int_float (int ?size) (percent_empty a)"
    using assms(4) by (simp add: mul_int_float_nonneg)
  then have k: "0 \<le> ?k" by (simp add: trunc_def)
  let ?chosen = "take (nat ?k) perm"
  have sl: "slice_to ?k perm = ?chosen" using k by (simp add: slice_to_def)
  let ?coord = "\<lambda>i::nat. (i div ?w, i mod ?w)"
  let ?cs = "map ?coord ?chosen"
  let ?res = "fold (\<lambda>c g. set_cell g c (-1)) ?cs ?start"
  have init: "init a r = Inr (?res, r2)"
    using assms(1,2,3) rl sh sl by (simp add: init_def Let_def fold_map comp_def)
  have dch: "distinct ?chosen" using dp by simp
  have dcs: "distinct ?cs"
    using dch flat_coord_inj[OF w] by (simp add: distinct_map)
  have row: "\<And>y. y < ?h \<Longrightarrow> length (take ?w (drop (y * ?w) vs)) = ?w"
  proof -
    fix y assume y: "y < ?h"
    then have "Suc y * ?w \<le> ?size" using mult_le_mono1[of "Suc y" ?h ?w] by simp
    then have "?w \<le> ?size - y * ?w" by simp
    then show "length (take ?w (drop (y * ?w) vs)) = ?w" by (simp add: lvs)
  qed
  have sub0: "set (concat ?start) \<subseteq> set vs"
    by (auto dest: in_set_takeD in_set_dropD)
  have ok: "\<forall>c \<in> set ?cs. in_grid ?start c \<and> cell ?start c \<noteq> -1"
  proof
    fix c assume "c \<in> set ?cs"
    then obtain i where i: "i \<in> set ?chosen" and c: "c = (i div ?w, i mod ?w)" by auto
    from i have "i \<in> set perm" by (rule in_set_takeD)
    then have il: "i < ?size" using sp by simp
    then have y: "i div ?w < ?h" using w by (simp add: less_mult_imp_div_less)
    have x: "i mod ?w < ?w" using w by simp
    have ig: "in_grid ?start c" using y x row[OF y] by (simp add: in_grid_def c)
    have "cell ?start c \<in> set (concat ?start)"
      using ig cell_in_mset[of ?start c] by simp
    then have "cell ?start c \<in> set vs" using sub0 by blast
    then have "cell ?start c \<noteq> -1" using rvs by auto
    with ig show "in_grid ?start c \<and> cell ?start c \<noteq> -1" by simp
  qed
  note b = blank_cells[OF dcs ok]
  have "-1 \<notin> set vs" using rvs by auto
  then have "-1 \<notin> set (concat ?start)" using sub0 by blast
  then have c0: "count (mset (concat ?start)) (-1) = 0" by (simp add: count_eq_zero_iff)
  have lc: "length ?cs = min (nat ?k) ?size" by (simp add: lp min_def)
  have "count (mset (concat ?res)) (-1) = length ?cs" using b c0 by simp
  then have 1: "count_list (concat ?res) (-1) = min (nat ?k) ?size"
    by (simp only: count_mset lc)
  have "map length ?start = map (\<lambda>y. length (take ?w (drop (y * ?w) vs))) [0..<?h]"
    by (simp add: comp_def del: length_take length_drop)
  also have "\<dots> = map (\<lambda>y. ?w) [0..<?h]"
    by (rule map_cong) (simp_all add: row del: length_take length_drop)
  also have "\<dots> = replicate ?h ?w" by (simp add: map_replicate_const)
  finally have "map length ?start = replicate ?h ?w" .
  then have 2: "map length ?res = replicate ?h ?w" using b by simp
  have 3: "\<forall>v \<in> set (concat ?res). v = -1 \<or> 2 \<le> v \<and> v \<le> agent_types a + 1"
  proof
    fix v assume "v \<in> set (concat ?res)"
    then have "v = -1 \<or> v \<in> set vs" using b sub0 by blast
    then show "v = -1 \<or> 2 \<le> v \<and> v \<le> agent_types a + 1" using rvs by auto
  qed
  from init 1 2 3 show ?thesis by blast
qed

lemma get_empty_cells_Nil_iff: "get_empty_cells g = [] \<longleftrightarrow> -1 \<notin> set (concat g)"
proof
  assume e: "get_empty_cells g = []"
  show "-1 \<notin> set (concat g)"
  proof
    assume "-1 \<in> set (concat g)"
    then obtain row where "row \<in> set g" "-1 \<in> set row" by auto
    then obtain y x where "y < length g" "g ! y = row" "x < length row" "row ! x = -1"
      by (metis in_set_conv_nth)
    then have "(y, x) \<in> set (get_empty_cells g)" by (simp add: in_get_empty_cells)
    with e show False by simp
  qed
next
  assume n: "-1 \<notin> set (concat g)"
  show "get_empty_cells g = []"
  proof (rule ccontr)
    assume "get_empty_cells g \<noteq> []"
    then obtain c where "c \<in> set (get_empty_cells g)" by (cases "get_empty_cells g") auto
    then have "in_grid g c" "cell g c = -1" by (simp_all add: get_empty_cells_inv)
    then have "-1 \<in> set (concat g)" using cell_in_mset[of g c] by simp
    with n show False by simp
  qed
qed

lemma update_result:
  "update g t r =
     (if unhappy_scan g t = [] then Inl SystemExit
      else if get_empty_cells g = [] then Inl IndexError
      else update g t r)
   \<and> (unhappy_scan g t \<noteq> [] \<and> get_empty_cells g \<noteq> [] \<longleftrightarrow> (\<exists>res. update g t r = Inr res))"
proof -
  note p = update_pass_result[of g t r]
  show ?thesis
  proof (cases "unhappy_scan g t = []")
    case True
    with p have "update_pass g t r = Inl SystemExit" by simp
    with True show ?thesis by (simp add: update_def)
  next
    case False
    show ?thesis
    proof (cases "get_empty_cells g = []")
      case True
      with p False have "update_pass g t r = Inl IndexError" by simp
      with True False show ?thesis by (simp add: update_def)
    next
      case e: False
      with p False obtain res where "update_pass g t r = Inr res" by auto
      with e False show ?thesis by (cases res) (simp add: update_def)
    qed
  qed
qed

lemma int_min_nat: "0 \<le> k \<Longrightarrow> 0 \<le> s \<Longrightarrow> int (min (nat k) (nat s)) = min k s"
  by (cases "k \<le> s") (simp_all add: min_def nat_le_eq_zle)

lemma init_small: "\<exists>r'. init small_args (\<lambda>i. i) = Inr ([[2]], r')"
proof -
  have "(case init small_args (\<lambda>i. i) of Inl e \<Rightarrow> None | Inr (g, r') \<Rightarrow> Some g) = Some [[2]]"
    by code_simp
  then show ?thesis by (auto split: sum.splits)
qed


lemma init_half: "\<exists>r'. init half_args (\<lambda>i. i) = Inr ([[2, -1, 2], [-1, -1, 3]], r')"
proof -
  have "(case init half_args (\<lambda>i. i) of Inl e \<Rightarrow> None | Inr (g, r') \<Rightarrow> Some g)
      = Some [[2, -1, 2], [-1, -1, 3]]"
    by code_simp
  then show ?thesis by (auto split: sum.splits)
qed

text \<open>
  Claim C6, as the code has it. For a valid configuration the constructor returns
  a grid of \<open>height\<close> rows of \<open>width\<close> cells. Its empty cells are those at the
  first \<open>int(percent_empty * size)\<close> entries of a shuffle of all \<open>size\<close> cell
  indices, so their number is that integer (the double product, truncated), capped
  by \<open>size\<close>; every other cell holds a value from \<open>2\<close> to \<open>agent_types + 1\<close>.
\<close>

theorem init_empty_cells:
  assumes "0 < width a" and "0 < height a" and "1 \<le> agent_types a"
    and "0 \<le> percent_empty a" and "percent_empty a < 1"
  shows "\<exists>g r'. init a r = Inr (g, r')
     \<and> map length g = replicate (nat (height a)) (nat (width a))
     \<and> int (count_list (concat g) (-1))
         = min (trunc (mul_int_float (height a * width a) (percent_empty a))) (height a * width a)
     \<and> (\<forall>v \<in> set (concat g). v = -1 \<or> 2 \<le> v \<and> v \<le> agent_types a + 1)"
proof -
  let ?k = "trunc (mul_int_float (height a * width a) (percent_empty a))"
  have s: "int (nat (height a) * nat (width a)) = height a * width a"
    using assms(1,2) by simp
  have "0 \<le> mul_int_float (height a * width a) (percent_empty a)"
    using assms(1,2,4) by (simp add: mul_int_float_nonneg)
  then have k: "0 \<le> ?k" by (simp add: trunc_def)
  from init_props[OF assms(1-4), of r] obtain g r' where i: "init a r = Inr (g, r')"
    and l: "map length g = replicate (nat (height a)) (nat (width a))"
    and c: "count_list (concat g) (-1)
         = min (nat (trunc (mul_int_float (int (nat (height a) * nat (width a))) (percent_empty a))))
               (nat (height a) * nat (width a))"
    and v: "\<forall>v \<in> set (concat g). v = -1 \<or> 2 \<le> v \<and> v \<le> agent_types a + 1"
    by blast
  have S: "0 \<le> height a * width a" using assms(1,2) by simp
  have "nat (height a) * nat (width a) = nat (height a * width a)"
    using assms(2) by (simp add: nat_mult_distrib)
  with c s have c': "count_list (concat g) (-1) = min (nat ?k) (nat (height a * width a))"
    by simp
  have "int (min (nat ?k) (nat (height a * width a))) = min ?k (height a * width a)"
    using k S by (rule int_min_nat)
  with c' have "int (count_list (concat g) (-1)) = min ?k (height a * width a)"
    by simp
  with i l v show ?thesis by blast
qed

theorem init_empty_cells_witness:
  "\<exists>r'. init half_args (\<lambda>i. i) = Inr ([[2, -1, 2], [-1, -1, 3]], r')
     \<and> int (count_list (concat [[2, -1, 2], [-1, -1, 3]]) (-1::int))
         = min (trunc (mul_int_float (2 * 3) (1 / 2))) (2 * 3)
     \<and> trunc (mul_int_float (2 * 3) (1 / 2)) = 3"
proof -
  from init_half obtain r0 where i: "init half_args (\<lambda>i. i) = Inr ([[2, -1, 2], [-1, -1, 3]], r0)" ..
  have t: "trunc (mul_int_float (2 * 3) (1 / 2)) = 3" by code_simp
  have "int (count_list (concat [[2, -1, 2], [-1, -1, 3]]) (-1::int))
         = min (trunc (mul_int_float (2 * 3) (1 / 2))) (2 * 3)"
    using init_empty_cells[of half_args "\<lambda>i. i"] i by (simp add: half_args_def)
  with i t show ?thesis by blast
qed

theorem init_empty_cells_counterexample:
  "\<not> (\<forall>a r g r'. 0 < width a \<and> 0 < height a \<and> 1 \<le> agent_types a
          \<and> 0 \<le> percent_empty a \<and> percent_empty a < 1 \<and> init a r = Inr (g, r')
        \<longrightarrow> int (count_list (concat g) (-1))
              = round_half_even (percent_empty a * of_int (width a) * of_int (height a)))"
proof
  assume all: "\<forall>a r g r'. 0 < width a \<and> 0 < height a \<and> 1 \<le> agent_types a
          \<and> 0 \<le> percent_empty a \<and> percent_empty a < 1 \<and> init a r = Inr (g, r')
        \<longrightarrow> int (count_list (concat g) (-1))
              = round_half_even (percent_empty a * of_int (width a) * of_int (height a))"
  from init_small obtain r0 where i: "init small_args (\<lambda>i. i) = Inr ([[2]], r0)" ..
  have "round_half_even (3 / 4) = 1" by code_simp
  moreover from all have "0 < width small_args \<and> 0 < height small_args
          \<and> 1 \<le> agent_types small_args
          \<and> 0 \<le> percent_empty small_args \<and> percent_empty small_args < 1
          \<and> init small_args (\<lambda>i. i) = Inr ([[2]], r0)
        \<longrightarrow> int (count_list (concat [[2::int]]) (-1))
              = round_half_even (percent_empty small_args * of_int (width small_args)
                  * of_int (height small_args))"
    by blast
  with i have "int (count_list (concat [[2::int]]) (-1))
      = round_half_even (percent_empty small_args * of_int (width small_args)
          * of_int (height small_args))"
    by (simp add: small_args_def)
  ultimately show False by (simp add: small_args_def)
qed




section \<open>The main loop\<close>

lemma update_keeps_empty:
  assumes "update g t r = Inr (n, g', r')"
  shows "get_empty_cells g \<noteq> [] \<and> get_empty_cells g' \<noteq> []"
proof -
  from update_result[of g t r] assms have e: "get_empty_cells g \<noteq> []" by auto
  from assms obtain unhappy moves where up: "update_pass g t r = Inr (unhappy, g', r', moves)"
    by (rule update_Inr)
  from up obtain r1 es' where
    rl: "relocate g (get_empty_cells g) r1 unhappy = Inr (g', es', r', moves)"
    and inv: "pass_inv g (get_empty_cells g) unhappy"
    by (rule update_pass_Inr)
  from relocate_preserves[OF inv rl] have "mset (concat g') = mset (concat g)" by simp
  then have "set (concat g') = set (concat g)" by (metis set_mset_mset)
  with e show ?thesis by (simp add: get_empty_cells_Nil_iff)
qed

lemma update_Inl:
  assumes "update g t r = Inl e"
  shows "(e = SystemExit \<and> unhappy_scan g t = [])
       \<or> (e = IndexError \<and> unhappy_scan g t \<noteq> [] \<and> get_empty_cells g = [])"
  using update_result[of g t r] assms by (auto split: if_splits)

text \<open>the finite loop\<close>
lemma run_loop_props:
  "length (frames (run_loop t is it g r fs)) \<le> length fs + length is
   \<and> iteration (run_loop t is it g r fs) \<in> set (it # is)
   \<and> (ending (run_loop t is it g r fs) = AllFinished \<longrightarrow>
        length (frames (run_loop t is it g r fs)) = length fs + length is
        \<and> iteration (run_loop t is it g r fs) = last (it # is))
   \<and> (ending (run_loop t is it g r fs) \<noteq> AllFinished \<longrightarrow>
        iteration (run_loop t is it g r fs) \<in> set is
        \<and> last (frames (run_loop t is it g r fs)) = final (run_loop t is it g r fs)
        \<and> frames (run_loop t is it g r fs) \<noteq> [])
   \<and> (ending (run_loop t is it g r fs) = NoUnhappyExit \<longrightarrow>
        unhappy_scan (final (run_loop t is it g r fs)) t = [])
   \<and> (\<forall>e. ending (run_loop t is it g r fs) = Raised e \<longrightarrow>
        e = IndexError \<and> unhappy_scan (final (run_loop t is it g r fs)) t \<noteq> []
        \<and> get_empty_cells (final (run_loop t is it g r fs)) = [])"
proof (induction "is" arbitrary: it g r fs)
  case Nil
  then show ?case by simp
next
  case (Cons i "is")
  show ?case
  proof (cases "update g t r")
    case (Inl e)
    from update_Inl[OF Inl] show ?thesis
      by (auto simp: Inl)
  next
    case (Inr res)
    obtain n g' r' where res: "res = (n, g', r')" by (cases res)
    from Cons.IH[of i g' r' "fs @ [g]"] show ?thesis
      by (auto simp: Inr res)
  qed
qed

end
